theory Spec2Isabelle
  imports Main "HOL-Library.Word"
begin

unbundle bit_operations_syntax

section \<open>Errors and Go integer arithmetic\<close>

text \<open>
  The Go package fails in two ways. A run-time panic: \<^verbatim>\<open>gfDiv\<close> panics explicitly on a
  zero divisor, an array or slice index outside its bounds panics, and so does
  \<^verbatim>\<open>make\<close> with a negative length or one beyond what the runtime allocates; the image
  constructor of the standard library panics on a rectangle of huge or negative
  dimensions. An error value: \<^verbatim>\<open>NewQRCode\<close> returns its single
  error ("content too long or requires block interleaving (not implemented)"), here
  \<open>ContentTooLong\<close>. A function that can panic returns \<open>panic + 'a\<close>; \<^verbatim>\<open>NewQRCode\<close>
  returns \<open>error + QRCode\<close>, with a panic inside it wrapped as \<open>Panicked\<close>.
\<close>

datatype panic = DivideByZero | IndexOutOfRange | MakeSliceLenOutOfRange | HugeOrNegativeDimensions

datatype error = ContentTooLong | Panicked panic

definition bindE :: "'e + 'a \<Rightarrow> ('a \<Rightarrow> 'e + 'b) \<Rightarrow> 'e + 'b" where
  "bindE m f = (case m of Inl e \<Rightarrow> Inl e | Inr x \<Rightarrow> f x)"

text \<open>A \<^verbatim>\<open>for\<close> loop over the elements of \<open>xs\<close> whose body may panic: the first panic ends it.\<close>

fun foldE :: "('a \<Rightarrow> 's \<Rightarrow> 'e + 's) \<Rightarrow> 'a list \<Rightarrow> 's \<Rightarrow> 'e + 's" where
  "foldE f [] s = Inr s"
| "foldE f (x # xs) s = bindE (f x s) (foldE f xs)"

text \<open>Go's \<^verbatim>\<open>%\<close> on \<^verbatim>\<open>int\<close> truncates towards zero: the result has the sign of the
  dividend.\<close>

definition go_rem :: "int \<Rightarrow> int \<Rightarrow> int" where
  "go_rem a b = sgn a * (\<bar>a\<bar> mod \<bar>b\<bar>)"

text \<open>Go's \<^verbatim>\<open>/\<close> on \<^verbatim>\<open>int\<close> truncates towards zero as well.\<close>

definition go_quot :: "int \<Rightarrow> int \<Rightarrow> int" where
  "go_quot a b = sgn a * sgn b * (\<bar>a\<bar> div \<bar>b\<bar>)"

section \<open>reedsolomon.go: the Galois field GF(256)\<close>

text \<open>
  \<^verbatim>\<open>init\<close> fills the two package-level arrays \<^verbatim>\<open>expTable\<close> and \<^verbatim>\<open>logTable\<close>
  (\<^verbatim>\<open>[256]int\<close>, zero-initialised). The loop state is \<open>(val, expTable, logTable)\<close>;
  \<open>init_step i\<close> is the loop body at index \<open>i\<close>.
\<close>

definition init_step :: "nat \<Rightarrow> int \<times> int list \<times> int list \<Rightarrow> int \<times> int list \<times> int list" where
  "init_step i s = (case s of (val, e, l) \<Rightarrow>
     (let e' = e[i := val];
          l' = l[nat val := int i];
          v2 = val * 2
      in (if v2 \<ge> 256 then v2 XOR 0x11D else v2, e', l')))"

definition init_tables :: "int \<times> int list \<times> int list" where
  "init_tables = fold init_step [0..<255] (1, replicate 256 0, replicate 256 0)"

definition expTable :: "int list" where
  "expTable = fst (snd init_tables)"

definition logTable :: "int list" where
  "logTable = snd (snd init_tables)"

text \<open>Indexing a Go array with an index outside its bounds panics.\<close>

definition tableGet :: "int list \<Rightarrow> int \<Rightarrow> panic + int" where
  "tableGet t i = (if 0 \<le> i \<and> i < int (length t) then Inr (t ! nat i) else Inl IndexOutOfRange)"

definition gfAdd :: "int \<Rightarrow> int \<Rightarrow> int" where
  "gfAdd x y = x XOR y"

definition gfSub :: "int \<Rightarrow> int \<Rightarrow> int" where
  "gfSub x y = x XOR y"

definition gfMul :: "int \<Rightarrow> int \<Rightarrow> panic + int" where
  "gfMul x y = (if x = 0 \<or> y = 0 then Inr 0
     else bindE (tableGet logTable x) (\<lambda>lx.
          bindE (tableGet logTable y) (\<lambda>ly.
          tableGet expTable (go_rem (lx + ly) 255))))"

definition gfDiv :: "int \<Rightarrow> int \<Rightarrow> panic + int" where
  "gfDiv x y = (if y = 0 then Inl DivideByZero
     else if x = 0 then Inr 0
     else bindE (tableGet logTable x) (\<lambda>lx.
          bindE (tableGet logTable y) (\<lambda>ly.
          tableGet expTable (go_rem (lx + 255 - ly) 255))))"

text \<open>
  \<^verbatim>\<open>res[k] ^= m\<close> on a slice: the index is checked, as Go does.
\<close>

definition xorAt :: "int list \<Rightarrow> nat \<Rightarrow> int \<Rightarrow> panic + int list" where
  "xorAt res k m = (if k < length res then Inr (res[k := (res ! k) XOR m]) else Inl IndexOutOfRange)"

text \<open>
  \<^verbatim>\<open>gfPolyMul\<close>: \<^verbatim>\<open>make\<close> panics when \<open>len(p)+len(q)-1\<close> is negative; the loop indices
  \<open>i\<close> and \<open>j\<close> stay below \<open>len(p)\<close> and \<open>len(q)\<close> by the loop bounds.
\<close>

definition gfPolyMul :: "int list \<Rightarrow> int list \<Rightarrow> panic + int list" where
  "gfPolyMul p q =
     (if length p + length q < 1 then Inl MakeSliceLenOutOfRange
      else foldE (\<lambda>i. foldE (\<lambda>j res. bindE (gfMul (p ! i) (q ! j)) (xorAt res (i + j)))
                          [0..<length q])
             [0..<length p] (replicate (length p + length q - 1) 0))"

text \<open>
  \<^verbatim>\<open>GenerateGeneratorPoly\<close> and \<^verbatim>\<open>CalculateECCodewords\<close>. The count \<open>numECCodewords\<close> is
  a \<open>nat\<close>: the package passes only the \<^verbatim>\<open>ECCodewords\<close> constants of its table.
  In \<^verbatim>\<open>CalculateECCodewords\<close> the slice \<^verbatim>\<open>msg\<close> is written but never read, and is left
  out; \<^verbatim>\<open>remainder\<close> starts as the data followed by \<open>numECCodewords\<close> zeros.
\<close>

definition GenerateGeneratorPoly :: "nat \<Rightarrow> panic + int list" where
  "GenerateGeneratorPoly numECCodewords =
     foldE (\<lambda>i gen. bindE (tableGet expTable (int i)) (\<lambda>e. gfPolyMul gen [1, e]))
       [0..<numECCodewords] [1]"

definition divStep :: "int list \<Rightarrow> nat \<Rightarrow> int list \<Rightarrow> panic + int list" where
  "divStep generator i remainder =
     (let coef = remainder ! i
      in if coef \<noteq> 0
         then foldE (\<lambda>j rem. bindE (gfMul (generator ! j) coef) (xorAt rem (i + j)))
                [0..<length generator] remainder
         else Inr remainder)"

definition CalculateECCodewords :: "int list \<Rightarrow> nat \<Rightarrow> panic + int list" where
  "CalculateECCodewords data numECCodewords =
     bindE (GenerateGeneratorPoly numECCodewords) (\<lambda>generator.
     bindE (foldE (divStep generator) [0..<length data] (data @ replicate numECCodewords 0))
       (\<lambda>remainder. Inr (drop (length data) remainder)))"

section \<open>The encoder: constants, capacity table, version selection\<close>

definition ModeByte :: int where "ModeByte = 4"

definition LevelL :: int where "LevelL = 1"
definition LevelM :: int where "LevelM = 0"
definition LevelQ :: int where "LevelQ = 3"
definition LevelH :: int where "LevelH = 2"

record VersionInfo =
  TotalCodewords :: int
  ECCodewords :: int
  Blocks :: int

text \<open>
  \<^verbatim>\<open>versionTable\<close> is a Go map of maps. Indexing a Go map with a missing key gives the
  zero value, also when the outer key is missing: \<open>versionLookup ver level\<close> is the
  expression \<^verbatim>\<open>versionTable[ver][level]\<close>.
\<close>

definition versionTable :: "int \<rightharpoonup> (int \<rightharpoonup> VersionInfo)" where
  "versionTable = map_of [
     (1, map_of [
        (LevelL, \<lparr>TotalCodewords = 26, ECCodewords = 7, Blocks = 1\<rparr>),
        (LevelM, \<lparr>TotalCodewords = 26, ECCodewords = 10, Blocks = 1\<rparr>),
        (LevelQ, \<lparr>TotalCodewords = 26, ECCodewords = 13, Blocks = 1\<rparr>),
        (LevelH, \<lparr>TotalCodewords = 26, ECCodewords = 17, Blocks = 1\<rparr>)]),
     (2, map_of [
        (LevelL, \<lparr>TotalCodewords = 44, ECCodewords = 10, Blocks = 1\<rparr>),
        (LevelM, \<lparr>TotalCodewords = 44, ECCodewords = 16, Blocks = 1\<rparr>),
        (LevelQ, \<lparr>TotalCodewords = 44, ECCodewords = 22, Blocks = 1\<rparr>),
        (LevelH, \<lparr>TotalCodewords = 44, ECCodewords = 28, Blocks = 1\<rparr>)]),
     (3, map_of [
        (LevelL, \<lparr>TotalCodewords = 70, ECCodewords = 15, Blocks = 1\<rparr>),
        (LevelM, \<lparr>TotalCodewords = 70, ECCodewords = 26, Blocks = 1\<rparr>),
        (LevelQ, \<lparr>TotalCodewords = 70, ECCodewords = 36, Blocks = 2\<rparr>),
        (LevelH, \<lparr>TotalCodewords = 70, ECCodewords = 44, Blocks = 2\<rparr>)]),
     (4, map_of [
        (LevelL, \<lparr>TotalCodewords = 100, ECCodewords = 20, Blocks = 1\<rparr>),
        (LevelM, \<lparr>TotalCodewords = 100, ECCodewords = 36, Blocks = 2\<rparr>),
        (LevelQ, \<lparr>TotalCodewords = 100, ECCodewords = 52, Blocks = 2\<rparr>),
        (LevelH, \<lparr>TotalCodewords = 100, ECCodewords = 64, Blocks = 4\<rparr>)])]"

definition zeroVersionInfo :: VersionInfo where
  "zeroVersionInfo = \<lparr>TotalCodewords = 0, ECCodewords = 0, Blocks = 0\<rparr>"

definition versionLookup :: "int \<Rightarrow> int \<Rightarrow> VersionInfo" where
  "versionLookup ver level =
     (case versionTable ver of
        None \<Rightarrow> zeroVersionInfo
      | Some m \<Rightarrow> (case m level of None \<Rightarrow> zeroVersionInfo | Some info \<Rightarrow> info))"

text \<open>
  The version search of \<^verbatim>\<open>NewQRCode\<close> (\<^verbatim>\<open>for ver := 1; ver <= 4; ver++\<close>) over the list
  of the versions still to try; \<open>n\<close> is \<^verbatim>\<open>len(data)\<close>. \<open>None\<close> is \<^verbatim>\<open>found == false\<close>.
\<close>

definition dataCapacity :: "VersionInfo \<Rightarrow> int" where
  "dataCapacity info = (TotalCodewords info - ECCodewords info) * 8"

fun findVersion :: "int list \<Rightarrow> nat \<Rightarrow> int \<Rightarrow> (int \<times> VersionInfo) option" where
  "findVersion [] n level = None"
| "findVersion (ver # vers) n level =
     (let info = versionLookup ver level
      in if Blocks info > 1 then findVersion vers n level
         else if 4 + 8 + int n * 8 \<le> dataCapacity info then Some (ver, info)
         else findVersion vers n level)"

section \<open>The encoder: bit buffer, terminator and padding\<close>

text \<open>
  \<^verbatim>\<open>BitBuffer.Put(num, length)\<close> appends the low \<open>length\<close> bits of \<open>num\<close>, most
  significant first. A \<^verbatim>\<open>BitBuffer\<close> is its \<^verbatim>\<open>Bits\<close> slice.
\<close>

definition Put :: "bool list \<Rightarrow> int \<Rightarrow> int \<Rightarrow> bool list" where
  "Put bits num len =
     bits @ map (\<lambda>i. (drop_bit (nat (len - 1 - i)) num) AND 1 = 1) [0..len - 1]"

definition padBytes :: "int list" where
  "padBytes = [0xEC, 0x11]"

function padLoop :: "int \<Rightarrow> bool list \<Rightarrow> nat \<Rightarrow> bool list" where
  "padLoop cap bits padIdx =
     (if int (length bits) < cap
      then padLoop cap (Put bits (padBytes ! padIdx) 8) ((padIdx + 1) mod 2)
      else bits)"
  by pat_completeness auto
termination
  by (relation "measure (\<lambda>(cap, bits, padIdx). nat (cap - int (length bits)))")
     (auto simp: Put_def)

declare padLoop.simps [simp del]

text \<open>
  Lines 105 to 135 of \<^verbatim>\<open>NewQRCode\<close>: mode indicator, count, payload, terminator, byte
  alignment and pad bytes. \<open>data\<close> is \<^verbatim>\<open>[]byte(content)\<close> as integers.
\<close>

definition headerBits :: "int list \<Rightarrow> bool list" where
  "headerBits data =
     fold (\<lambda>b bits. Put bits b 8) data (Put (Put [] ModeByte 4) (int (length data)) 8)"

definition addTerminator :: "int \<Rightarrow> bool list \<Rightarrow> bool list" where
  "addTerminator cap bits =
     (if int (length bits) < cap
      then Put bits 0 (if int (length bits) + 4 > cap then cap - int (length bits) else 4)
      else bits)"

definition alignByte :: "bool list \<Rightarrow> bool list" where
  "alignByte bits =
     (if length bits mod 8 \<noteq> 0 then Put bits 0 (8 - int (length bits mod 8)) else bits)"

definition encodeData :: "int list \<Rightarrow> VersionInfo \<Rightarrow> bool list" where
  "encodeData data vInfo =
     padLoop (dataCapacity vInfo)
       (alignByte (addTerminator (dataCapacity vInfo) (headerBits data))) 0"

text \<open>The conversion of the bit buffer to codewords (lines 138 to 149).\<close>

definition byteAt :: "bool list \<Rightarrow> nat \<Rightarrow> int" where
  "byteAt bits i =
     fold (\<lambda>j val. if i + j < length bits \<and> bits ! (i + j) then val OR push_bit (7 - j) 1 else val)
       [0..<8] 0"

definition bitsToCodewords :: "bool list \<Rightarrow> int list" where
  "bitsToCodewords bits = map (\<lambda>k. byteAt bits (8 * k)) [0..<(length bits + 7) div 8]"

definition contentBytes :: "string \<Rightarrow> int list" where
  "contentBytes content = map of_char content"

section \<open>The encoder: matrix construction\<close>

record QRCode =
  Version :: int
  Level :: int
  Size :: int
  Modules :: "bool list list"

text \<open>
  During construction \<^verbatim>\<open>NewQRCode\<close> holds two grids, \<^verbatim>\<open>qr.Modules\<close> and the local
  \<^verbatim>\<open>isFunction\<close>. A grid is a slice of slices; reading or writing \<open>g[r][c]\<close> panics
  when \<open>r\<close> or \<open>c\<close> is outside the slice it indexes.
\<close>

record layout =
  modules :: "bool list list"
  isFunction :: "bool list list"

definition getCell :: "bool list list \<Rightarrow> int \<Rightarrow> int \<Rightarrow> panic + bool" where
  "getCell g r c =
     (if 0 \<le> r \<and> r < int (length g) \<and> 0 \<le> c \<and> c < int (length (g ! nat r))
      then Inr (g ! nat r ! nat c) else Inl IndexOutOfRange)"

definition setCell :: "bool list list \<Rightarrow> int \<Rightarrow> int \<Rightarrow> bool \<Rightarrow> panic + bool list list" where
  "setCell g r c b =
     (if 0 \<le> r \<and> r < int (length g) \<and> 0 \<le> c \<and> c < int (length (g ! nat r))
      then Inr (g[nat r := (g ! nat r)[nat c := b]]) else Inl IndexOutOfRange)"

definition setModule :: "int \<Rightarrow> int \<Rightarrow> bool \<Rightarrow> layout \<Rightarrow> panic + layout" where
  "setModule r c b lay = bindE (setCell (modules lay) r c b) (\<lambda>g. Inr (lay\<lparr>modules := g\<rparr>))"

definition markFunction :: "int \<Rightarrow> int \<Rightarrow> layout \<Rightarrow> panic + layout" where
  "markFunction r c lay = bindE (setCell (isFunction lay) r c True) (\<lambda>g. Inr (lay\<lparr>isFunction := g\<rparr>))"

text \<open>\<open>isFunction[r][c] = true; qr.Modules[r][c] = b\<close>, the pair of writes of most patterns.\<close>

definition putFunction :: "int \<Rightarrow> int \<Rightarrow> bool \<Rightarrow> layout \<Rightarrow> panic + layout" where
  "putFunction r c b lay = bindE (markFunction r c lay) (setModule r c b)"

text \<open>\<open>if !isFunction[r][c] { body }\<close>\<close>

definition unlessFunction :: "int \<Rightarrow> int \<Rightarrow> (layout \<Rightarrow> panic + layout) \<Rightarrow> layout \<Rightarrow> panic + layout" where
  "unlessFunction r c body lay =
     bindE (getCell (isFunction lay) r c) (\<lambda>f. if \<not> f then body lay else Inr lay)"

definition whenE :: "bool \<Rightarrow> ('s \<Rightarrow> 'e + 's) \<Rightarrow> 's \<Rightarrow> 'e + 's" where
  "whenE cond body s = (if cond then body s else Inr s)"

definition addFinderPattern :: "int \<Rightarrow> int \<Rightarrow> int \<Rightarrow> layout \<Rightarrow> panic + layout" where
  "addFinderPattern sz r c =
     foldE (\<lambda>i. foldE (\<lambda>j lay.
        if r + i \<ge> sz \<or> c + j \<ge> sz \<or> r + i < 0 \<or> c + j < 0 then Inr lay
        else putFunction (r + i) (c + j)
               (i = 0 \<or> i = 6 \<or> j = 0 \<or> j = 6 \<or> (i \<ge> 2 \<and> i \<le> 4 \<and> j \<ge> 2 \<and> j \<le> 4)) lay)
       [0..6]) [0..6]"

definition addSeparators :: "int \<Rightarrow> layout \<Rightarrow> panic + layout" where
  "addSeparators sz lay =
     bindE (foldE (\<lambda>i lay.
              bindE (whenE (i < sz \<and> 7 < sz) (putFunction i 7 False) lay)
                (whenE (i < sz \<and> 7 < sz) (putFunction 7 i False))) [0..7] lay) (\<lambda>lay.
     bindE (foldE (\<lambda>i lay.
              bindE (whenE (i < sz \<and> sz - 8 \<ge> 0) (putFunction i (sz - 8) False) lay)
                (whenE (sz - 1 - i \<ge> 0 \<and> 7 < sz) (putFunction 7 (sz - 1 - i) False))) [0..7] lay) (\<lambda>lay.
     foldE (\<lambda>i lay.
              bindE (whenE (sz - 1 - i \<ge> 0 \<and> 7 < sz) (putFunction (sz - 1 - i) 7 False) lay)
                (whenE (i < sz \<and> sz - 8 \<ge> 0) (putFunction (sz - 8) i False))) [0..7] lay))"

definition alignmentLocs :: "int \<Rightarrow> int list" where
  "alignmentLocs v = (if v = 2 then [6, 18] else if v = 3 then [6, 22] else if v = 4 then [6, 26] else [])"

definition drawAlignment :: "int \<Rightarrow> int \<Rightarrow> layout \<Rightarrow> panic + layout" where
  "drawAlignment cx cy =
     foldE (\<lambda>i. foldE (\<lambda>j.
        unlessFunction (cy + i) (cx + j)
          (putFunction (cy + i) (cx + j)
             (i = -2 \<or> i = 2 \<or> j = -2 \<or> j = 2 \<or> (i = 0 \<and> j = 0))))
       [-2..2]) [-2..2]"

definition addAlignmentPatterns :: "int \<Rightarrow> int \<Rightarrow> layout \<Rightarrow> panic + layout" where
  "addAlignmentPatterns sz v =
     whenE (v \<ge> 2)
       (foldE (\<lambda>cx. foldE (\<lambda>cy lay.
          if (cx < 9 \<and> cy < 9) \<or> (cx < 9 \<and> cy > sz - 9) \<or> (cx > sz - 9 \<and> cy < 9)
          then Inr lay else drawAlignment cx cy lay)
         (alignmentLocs v)) (alignmentLocs v))"

definition addTimingPatterns :: "int \<Rightarrow> layout \<Rightarrow> panic + layout" where
  "addTimingPatterns sz =
     foldE (\<lambda>i lay.
        bindE (unlessFunction 6 i (putFunction 6 i (go_rem i 2 = 0)) lay)
          (unlessFunction i 6 (putFunction i 6 (go_rem i 2 = 0))))
       [8..sz - 8 - 1]"

definition addDarkModule :: "int \<Rightarrow> layout \<Rightarrow> panic + layout" where
  "addDarkModule sz = putFunction (sz - 8) 8 True"

definition reserveFormatAreas :: "int \<Rightarrow> layout \<Rightarrow> panic + layout" where
  "reserveFormatAreas sz lay =
     bindE (foldE (\<lambda>i lay.
              bindE (unlessFunction 8 i (markFunction 8 i) lay)
                (unlessFunction i 8 (markFunction i 8))) [0..8] lay) (\<lambda>lay.
     bindE (foldE (\<lambda>i. unlessFunction 8 (sz - 1 - i) (markFunction 8 (sz - 1 - i))) [0..7] lay) (\<lambda>lay.
     foldE (\<lambda>i. unlessFunction (sz - 1 - i) 8 (markFunction (sz - 1 - i) 8)) [0..6] lay))"

definition functionPatterns :: "int \<Rightarrow> int \<Rightarrow> layout \<Rightarrow> panic + layout" where
  "functionPatterns sz v lay =
     bindE (addFinderPattern sz 0 0 lay) (\<lambda>lay.
     bindE (addFinderPattern sz 0 (sz - 7) lay) (\<lambda>lay.
     bindE (addFinderPattern sz (sz - 7) 0 lay) (\<lambda>lay.
     bindE (addSeparators sz lay) (\<lambda>lay.
     bindE (addAlignmentPatterns sz v lay) (\<lambda>lay.
     bindE (addTimingPatterns sz lay) (\<lambda>lay.
     bindE (addDarkModule sz lay) (reserveFormatAreas sz)))))))"

section \<open>The format-information BCH code\<close>

text \<open>
  \<^verbatim>\<open>calculateBCHFormat\<close>: the loop runs \<open>i = 4, 3, 2, 1, 0\<close>; \<open>bch_step i\<close> is its body.
  Go's \<^verbatim>\<open>>>\<close> on a signed \<^verbatim>\<open>int\<close> is the arithmetic shift, \<open>drop_bit\<close> on \<open>int\<close>.
\<close>

definition bch_step :: "nat \<Rightarrow> int \<Rightarrow> int" where
  "bch_step i d = (if (drop_bit (i + 10) d) AND 1 = 1 then d XOR push_bit i 0x537 else d)"

definition calculateBCHFormat :: "int \<Rightarrow> int" where
  "calculateBCHFormat data =
     (let d = fold bch_step [4, 3, 2, 1, 0] (push_bit 10 data)
      in (push_bit 10 data OR d) XOR 0x5412)"

text \<open>
  The reference notions the BCH claim is measured against. Polynomials over GF(2) are
  integers read bitwise. \<open>clmul a b\<close> is the carry-less product of \<open>a\<close> (of at most
  \<open>n\<close> bits) and \<open>b\<close>; a word is a codeword of the (15,5) code with generator \<open>g\<close>
  when it is the product of \<open>g\<close> and a polynomial of degree below 5. \<open>gf2_rem15 w g\<close>
  is the remainder of the schoolbook long division of a polynomial \<open>w\<close> of degree below
  15 by a polynomial \<open>g\<close> of degree 10.
\<close>

fun clmul :: "nat \<Rightarrow> int \<Rightarrow> int \<Rightarrow> int" where
  "clmul 0 a b = 0"
| "clmul (Suc n) a b = (if bit a n then push_bit n b else 0) XOR clmul n a b"

definition bch_codeword :: "int \<Rightarrow> int \<Rightarrow> bool" where
  "bch_codeword g w = (\<exists>q \<in> {0..31}. clmul 5 q g = w)"

fun gf2_reduce :: "nat \<Rightarrow> int \<Rightarrow> int \<Rightarrow> int" where
  "gf2_reduce 0 g w = w"
| "gf2_reduce (Suc k) g w = gf2_reduce k g (if bit w (10 + k) then w XOR push_bit k g else w)"

definition gf2_rem15 :: "int \<Rightarrow> int \<Rightarrow> int" where
  "gf2_rem15 w g = gf2_reduce 5 g w"

section \<open>The encoder: data placement, format information, \<^verbatim>\<open>NewQRCode\<close>\<close>

text \<open>The closure \<^verbatim>\<open>getBit\<close>: bit \<open>k\<close> of the message, most significant bit of a byte first.\<close>

definition getBit :: "int list \<Rightarrow> int \<Rightarrow> panic + bool" where
  "getBit finalMessage k =
     (let byteIdx = go_quot k 8; bitIdx = 7 - go_rem k 8
      in if 0 \<le> byteIdx \<and> byteIdx < int (length finalMessage)
         then Inr ((drop_bit (nat bitIdx) (finalMessage ! nat byteIdx)) AND 1 = 1)
         else Inl IndexOutOfRange)"

text \<open>
  The body of the innermost placement loop at cell \<open>(r, c)\<close>. The state is the layout and
  the bit counter \<^verbatim>\<open>idx\<close>; \<^verbatim>\<open>totalBits\<close> is \<open>len(finalMessage) * 8\<close>. Mask pattern 0 is
  applied to every data cell.
\<close>

definition placeCell :: "int list \<Rightarrow> int \<Rightarrow> int \<Rightarrow> layout \<times> int \<Rightarrow> panic + layout \<times> int" where
  "placeCell finalMessage r c st =
     (case st of (lay, idx) \<Rightarrow>
        bindE (getCell (isFunction lay) r c) (\<lambda>f.
          if \<not> f then
            bindE (if idx < int (length finalMessage) * 8
                   then bindE (getBit finalMessage idx) (\<lambda>b. Inr (b, idx + 1))
                   else Inr (False, idx)) (\<lambda>(b, idx').
            bindE (setModule r c (if go_rem (r + c) 2 = 0 then \<not> b else b) lay) (\<lambda>lay'.
            Inr (lay', idx')))
          else Inr st))"

definition placeColumn :: "int list \<Rightarrow> int \<Rightarrow> int \<Rightarrow> layout \<times> int \<Rightarrow> panic + layout \<times> int" where
  "placeColumn finalMessage sz col =
     foldE (\<lambda>rowIter.
        foldE (placeCell finalMessage
                 (if go_rem (go_quot (col + 1) 2) 2 = 0 then sz - 1 - rowIter else rowIter))
          [col, col - 1])
       [0..sz - 1]"

text \<open>
  The column loop \<^verbatim>\<open>for col := qr.Size - 1; col > 0; col -= 2\<close>, whose body first steps
  over the timing column (\<^verbatim>\<open>if col == 6 { col-- }\<close>).
\<close>

function placeColumns :: "int list \<Rightarrow> int \<Rightarrow> int \<Rightarrow> layout \<times> int \<Rightarrow> panic + layout \<times> int" where
  "placeColumns finalMessage sz col st =
     (if col > 0
      then (case placeColumn finalMessage sz (if col = 6 then col - 1 else col) st of
              Inl e \<Rightarrow> Inl e
            | Inr st' \<Rightarrow> placeColumns finalMessage sz ((if col = 6 then col - 1 else col) - 2) st')
      else Inr st)"
  by pat_completeness auto
termination
  by (relation "measure (\<lambda>(finalMessage, sz, col, st). nat col)") auto

declare placeColumns.simps [simp del]

definition ecBitsOf :: "int \<Rightarrow> int" where
  "ecBitsOf level =
     (if level = LevelL then 1 else if level = LevelM then 0
      else if level = LevelQ then 3 else if level = LevelH then 2 else 0)"

text \<open>The \<^verbatim>\<open>switch i\<close> of the format loop: the cell of bit \<open>i\<close> beside the top-left finder.\<close>

definition formatCell :: "int \<Rightarrow> (int \<times> int) option" where
  "formatCell i =
     (if i = 0 then Some (0, 8) else if i = 1 then Some (1, 8) else if i = 2 then Some (2, 8)
      else if i = 3 then Some (3, 8) else if i = 4 then Some (4, 8) else if i = 5 then Some (5, 8)
      else if i = 6 then Some (7, 8) else if i = 7 then Some (8, 8) else if i = 8 then Some (8, 7)
      else if i = 9 then Some (8, 5) else if i = 10 then Some (8, 4) else if i = 11 then Some (8, 3)
      else if i = 12 then Some (8, 2) else if i = 13 then Some (8, 1) else if i = 14 then Some (8, 0)
      else None)"

definition writeFormatBit :: "int \<Rightarrow> int \<Rightarrow> int \<Rightarrow> layout \<Rightarrow> panic + layout" where
  "writeFormatBit sz formatPoly i lay =
     (let b = ((drop_bit (nat i) formatPoly) AND 1 = 1)
      in bindE (case formatCell i of Some (r, c) \<Rightarrow> setModule r c b lay | None \<Rightarrow> Inr lay) (\<lambda>lay.
         if i < 8 then setModule 8 (sz - 1 - i) b lay
         else setModule (sz - 8 + (i - 8)) 8 b lay))"

definition maskPattern :: int where
  "maskPattern = 0"

definition formatPolyOf :: "int \<Rightarrow> int" where
  "formatPolyOf level = calculateBCHFormat (push_bit 3 (ecBitsOf level) OR maskPattern)"

definition writeFormatInfo :: "int \<Rightarrow> int \<Rightarrow> layout \<Rightarrow> panic + layout" where
  "writeFormatInfo sz level = foldE (writeFormatBit sz (formatPolyOf level)) [0..14]"

definition emptyLayout :: "int \<Rightarrow> layout" where
  "emptyLayout sz =
     \<lparr>modules = replicate (nat sz) (replicate (nat sz) False),
      isFunction = replicate (nat sz) (replicate (nat sz) False)\<rparr>"

text \<open>
  \<^verbatim>\<open>NewQRCode\<close> after the version is chosen (lines 105 to 451): \<open>v\<close> and \<open>vInfo\<close> are the
  chosen version and its table entry.
\<close>

definition buildSymbol :: "int list \<Rightarrow> int \<Rightarrow> int \<Rightarrow> VersionInfo \<Rightarrow> panic + QRCode" where
  "buildSymbol data level v vInfo =
     (let dataCodewords = bitsToCodewords (encodeData data vInfo)
      in bindE (CalculateECCodewords dataCodewords (nat (ECCodewords vInfo))) (\<lambda>ecCodewords.
         let finalMessage = dataCodewords @ ecCodewords;
             sz = 21 + 4 * (v - 1)
         in bindE (functionPatterns sz v (emptyLayout sz)) (\<lambda>lay.
            bindE (placeColumns finalMessage sz (sz - 1) (lay, 0)) (\<lambda>(lay, idx).
            bindE (writeFormatInfo sz level lay) (\<lambda>lay.
            Inr \<lparr>Version = v, Level = level, Size = sz, Modules = modules lay\<rparr>)))))"

definition NewQRCode :: "string \<Rightarrow> int \<Rightarrow> error + QRCode" where
  "NewQRCode content level =
     (case findVersion [1, 2, 3, 4] (length (contentBytes content)) level of
        None \<Rightarrow> Inl ContentTooLong
      | Some (v, vInfo) \<Rightarrow>
          (case buildSymbol (contentBytes content) level v vInfo of
             Inl p \<Rightarrow> Inl (Panicked p)
           | Inr qr \<Rightarrow> Inr qr))"

text \<open>
  Notions the encoder claims are stated with. \<open>bits8 x\<close> is a byte as 8 bits, most
  significant first; \<open>padSeq k\<close> is the bit sequence of \<open>k\<close> pad bytes alternating
  0xEC, 0x11 and starting with 0xEC; \<open>versionFits n level ver\<close> is the test the version
  loop applies to version \<open>ver\<close> for a payload of \<open>n\<close> bytes: the entry needs no
  interleaving and holds mode indicator, count and payload.
\<close>

definition bits8 :: "int \<Rightarrow> bool list" where
  "bits8 x = map (\<lambda>i. bit x (7 - i)) [0..<8]"

definition padSeq :: "nat \<Rightarrow> bool list" where
  "padSeq k = concat (map (\<lambda>j. bits8 (if even j then 0xEC else 0x11)) [0..<k])"

definition versionFits :: "nat \<Rightarrow> int \<Rightarrow> int \<Rightarrow> bool" where
  "versionFits n level ver =
     (Blocks (versionLookup ver level) \<le> 1 \<and>
      4 + 8 + int n * 8 \<le> dataCapacity (versionLookup ver level))"

section \<open>writer.go: the rasterizer\<close>

text \<open>
  \<^verbatim>\<open>WritePNG\<close> computes with Go's \<^verbatim>\<open>int\<close>, taken here to be 64 bits wide as on amd64 and
  arm64: \<open>wrap64 x\<close> is the value a 64-bit two's complement integer holds for the
  mathematical result \<open>x\<close>. It is written out at every sum and product of the rasterizer.
\<close>

definition wrap64 :: "int \<Rightarrow> int" where
  "wrap64 x = (x + 2 ^ 63) mod 2 ^ 64 - 2 ^ 63"

text \<open>
  \<^verbatim>\<open>WritePNG\<close> draws into an \<^verbatim>\<open>image.Paletted\<close> of Go's standard library and hands it to
  \<^verbatim>\<open>png.Encode\<close>. The functions of package \<^verbatim>\<open>image\<close> it calls are modelled as the library
  defines them. An image holds its rectangle (\<open>RectMin\<close>, \<open>RectMax\<close>), the row length
  \<^verbatim>\<open>Stride\<close>, and in \<^verbatim>\<open>Pix\<close> one palette index (a \<^verbatim>\<open>uint8\<close>) per pixel, row after row. The
  palette is white at index 0 and black at index 1.

  \<^verbatim>\<open>image.Rect\<close> swaps two coordinates given in the wrong order. \<^verbatim>\<open>image.NewPaletted\<close>
  takes the length of \<^verbatim>\<open>Pix\<close> from \<^verbatim>\<open>mul3NonNeg(1, r.Dx(), r.Dy())\<close>, which is \<open>-1\<close> when a
  factor is negative or the product does not fit an \<^verbatim>\<open>int\<close>, and panics on \<open>-1\<close> ("Rectangle
  has huge or negative dimensions"); \<^verbatim>\<open>make\<close> then panics on a length above \<open>maxAlloc\<close>,
  the largest allocation of the runtime, \<open>2 ^ 48\<close> bytes on 64-bit Linux. Running out of
  memory below that limit is not modelled.
\<close>

definition maxAlloc :: int where
  "maxAlloc = 2 ^ 48"

record paletted =
  Pix :: "8 word list"
  Stride :: int
  RectMin :: "int \<times> int"
  RectMax :: "int \<times> int"

definition Rect :: "int \<Rightarrow> int \<Rightarrow> int \<Rightarrow> int \<Rightarrow> (int \<times> int) \<times> (int \<times> int)" where
  "Rect x0 y0 x1 y1 =
     ((if x0 > x1 then x1 else x0, if y0 > y1 then y1 else y0),
      (if x0 > x1 then x0 else x1, if y0 > y1 then y0 else y1))"

definition mul3NonNeg :: "int \<Rightarrow> int \<Rightarrow> int \<Rightarrow> int" where
  "mul3NonNeg x y z =
     (if x < 0 \<or> y < 0 \<or> z < 0 then - 1
      else if 2 ^ 64 \<le> x * y then - 1
      else if 2 ^ 64 \<le> x * y * z then - 1
      else if wrap64 (x * y * z) < 0 then - 1
      else wrap64 (x * y * z))"

definition NewPaletted :: "(int \<times> int) \<times> (int \<times> int) \<Rightarrow> panic + paletted" where
  "NewPaletted r =
     (let dx = wrap64 (fst (snd r) - fst (fst r));
          dy = wrap64 (snd (snd r) - snd (fst r));
          totalLength = mul3NonNeg 1 dx dy
      in if totalLength < 0 then Inl HugeOrNegativeDimensions
         else if totalLength > maxAlloc then Inl MakeSliceLenOutOfRange
         else Inr \<lparr>Pix = replicate (nat totalLength) 0, Stride = wrap64 (1 * dx),
                   RectMin = fst r, RectMax = snd r\<rparr>)"

text \<open>
  \<^verbatim>\<open>Point.In\<close>, \<^verbatim>\<open>PixOffset\<close>, \<^verbatim>\<open>SetColorIndex\<close> and \<^verbatim>\<open>ColorIndexAt\<close> of \<^verbatim>\<open>image.Paletted\<close>.
  \<^verbatim>\<open>SetColorIndex\<close> ignores a point outside the rectangle and \<^verbatim>\<open>ColorIndexAt\<close> returns 0
  there; inside it both index \<^verbatim>\<open>Pix\<close> at \<^verbatim>\<open>PixOffset\<close>, with the bounds check of a slice.
\<close>

definition inRect :: "paletted \<Rightarrow> int \<Rightarrow> int \<Rightarrow> bool" where
  "inRect img x y =
     (fst (RectMin img) \<le> x \<and> x < fst (RectMax img) \<and>
      snd (RectMin img) \<le> y \<and> y < snd (RectMax img))"

definition PixOffset :: "paletted \<Rightarrow> int \<Rightarrow> int \<Rightarrow> int" where
  "PixOffset img x y =
     wrap64 (wrap64 (wrap64 (y - snd (RectMin img)) * Stride img) +
             wrap64 (wrap64 (x - fst (RectMin img)) * 1))"

definition SetColorIndex :: "paletted \<Rightarrow> int \<Rightarrow> int \<Rightarrow> 8 word \<Rightarrow> panic + paletted" where
  "SetColorIndex img x y idx =
     (if \<not> inRect img x y then Inr img
      else if 0 \<le> PixOffset img x y \<and> PixOffset img x y < int (length (Pix img))
      then Inr (img\<lparr>Pix := (Pix img)[nat (PixOffset img x y) := idx]\<rparr>)
      else Inl IndexOutOfRange)"

definition ColorIndexAt :: "paletted \<Rightarrow> int \<Rightarrow> int \<Rightarrow> panic + 8 word" where
  "ColorIndexAt img x y =
     (if \<not> inRect img x y then Inr 0
      else if 0 \<le> PixOffset img x y \<and> PixOffset img x y < int (length (Pix img))
      then Inr (Pix img ! nat (PixOffset img x y))
      else Inl IndexOutOfRange)"

text \<open>The two inner loops of \<^verbatim>\<open>WritePNG\<close>, which fill the square of one dark module.\<close>

definition drawModule :: "int \<Rightarrow> int \<Rightarrow> int \<Rightarrow> paletted \<Rightarrow> panic + paletted" where
  "drawModule scale startX startY =
     foldE (\<lambda>y. foldE (\<lambda>x img. SetColorIndex img (wrap64 (startX + x)) (wrap64 (startY + y)) 1)
                   [0..scale - 1])
       [0..scale - 1]"

text \<open>The loop \<^verbatim>\<open>for i := 0; i < len(img.Pix); i++ { img.Pix[i] = 0 }\<close>.\<close>

definition clearPix :: "paletted \<Rightarrow> paletted" where
  "clearPix img = img\<lparr>Pix := fold (\<lambda>i pix. pix[i := 0]) [0..<length (Pix img)] (Pix img)\<rparr>"

text \<open>
  \<^verbatim>\<open>WritePNG\<close> up to the call of \<^verbatim>\<open>png.Encode\<close>: the result is the image handed to the
  encoder, or the panic of the image constructor or of an index outside \<^verbatim>\<open>qr.Modules\<close>.
  The writer and the PNG byte stream belong to the standard library and are not
  modelled.
\<close>

definition WritePNG :: "QRCode \<Rightarrow> int \<Rightarrow> panic + paletted" where
  "WritePNG qr scale0 =
     (let scale = (if scale0 < 1 then 1 else scale0);
          border = 4;
          dim = wrap64 (wrap64 (Size qr + wrap64 (2 * border)) * scale)
      in bindE (NewPaletted (Rect 0 0 dim dim)) (\<lambda>img.
         foldE (\<lambda>r. foldE (\<lambda>c img.
             bindE (getCell (Modules qr) r c) (\<lambda>m.
               if m then drawModule scale (wrap64 (wrap64 (c + border) * scale))
                            (wrap64 (wrap64 (r + border) * scale)) img
               else Inr img))
           [0..Size qr - 1]) [0..Size qr - 1] (clearPix img)))"

section \<open>Reference notions for the Reed--Solomon claim\<close>

text \<open>
  A codeword block is read as a polynomial over GF(256) whose first codeword is the
  coefficient of the highest power. \<open>gfPolyEval p x\<close> evaluates it at \<open>x\<close> by Horner's
  rule with the package's own \<^verbatim>\<open>gfMul\<close> and \<^verbatim>\<open>gfAdd\<close>; \<open>syndrome block i\<close> is its value
  at the root \<open>expTable[i]\<close>.
\<close>

definition gfPolyEval :: "int list \<Rightarrow> int \<Rightarrow> panic + int" where
  "gfPolyEval p x = foldE (\<lambda>c acc. bindE (gfMul acc x) (\<lambda>m. Inr (gfAdd m c))) p 0"

definition syndrome :: "int list \<Rightarrow> nat \<Rightarrow> panic + int" where
  "syndrome block i = gfPolyEval block (expTable ! i)"

text \<open>
  Modelled from the spec: the Reed--Solomon decoder is not among the sources. Section 4.2
  says of it: "compute ecLen syndromes by evaluating the received polynomial at each root
  exp[i], i=0..ecLen-1; if all syndromes are zero, the block is error-free, return as-is.
  Otherwise run the Berlekamp--Massey algorithm ...". \<open>rsDecodeErrorFree\<close> is this first
  branch alone: it returns the data codewords of a block whose syndromes are all zero,
  and \<open>None\<close> where the decoder of the spec would start its error correction.
\<close>

definition rsDecodeErrorFree :: "int list \<Rightarrow> nat \<Rightarrow> int list option" where
  "rsDecodeErrorFree block ecLen =
     (if list_all (\<lambda>i. syndrome block i = Inr 0) [0..<ecLen]
      then Some (take (length block - ecLen) block) else None)"

text \<open>
  Modelled from the spec: the decoder (\<^verbatim>\<open>Decode\<close>) is not among the sources. Section 4.4
  says of the data decoder: "read 4-bit mode, the matching count indicator, then count
  units of payload per the same packing rules, reversing exactly the encode transform";
  byte mode has an 8-bit count and writes each byte as 8 bits. \<open>decodeByteSegment\<close> reads
  one byte-mode segment from a list of data codewords; any other mode, and a buffer too
  short for its count, give \<open>None\<close>. \<open>bitsValue\<close> is the number a bit list spells, most
  significant bit first.
\<close>

definition bitsValue :: "bool list \<Rightarrow> int" where
  "bitsValue bs = foldl (\<lambda>acc b. 2 * acc + (if b then 1 else 0)) 0 bs"

definition decodeByteSegment :: "int list \<Rightarrow> string option" where
  "decodeByteSegment codewords =
     (let bits = concat (map bits8 codewords)
      in if length bits < 12 \<or> bitsValue (take 4 bits) \<noteq> ModeByte then None
         else (let count = nat (bitsValue (take 8 (drop 4 bits)))
               in if length bits < 12 + 8 * count then None
                  else Some (map (\<lambda>k. char_of (bitsValue (take 8 (drop (12 + 8 * k) bits))))
                               [0..<count])))"

text \<open>
  Modelled from the spec: the symbol decoder (\<^verbatim>\<open>Decode\<close>) is not among the sources.
  Section 4.6 says of it: "derive version from (size-21)/4 + 1 ... Recompute the
  function-pattern membership set analytically from version/size (same rules as encode,
  never read from input). Walk the identical zig-zag traversal order used at encode to
  pull bits from non-function cells, undo the mask (same per-cell rule XORed again --
  masking is self-inverse), and accumulate into a codeword stream. Split that stream back
  into the same interleaved block structure (CapacityTable), pass each block through
  ReedSolomonCodec.decode, and concatenate corrected data codewords in original block
  order. Hand the result to DataCodec for mode decoding."

  \<open>zigzagCells sz col\<close> lists the cells in the order the placement loops of \<^verbatim>\<open>NewQRCode\<close>
  visit them from column \<open>col\<close> on: column pairs from right to left, the timing column 6
  stepped over, the rows upwards or downwards by the parity of the pair, in each row the
  right cell before the left one. \<open>unmask0\<close> undoes mask pattern 0, the only pattern the
  encoder applies. \<open>readSymbolBits F g sz\<close> collects the unmasked bits of the cells of
  the grid \<open>g\<close> that the function-pattern grid \<open>F\<close> does not mark, and \<open>readCodewords\<close>
  cuts the first \<open>n\<close> codewords out of a bit list.

  \<open>decodeSymbol\<close> is the decoder of the spec on a symbol without damage, within these
  limits: the size is \<open>21 + 4k\<close> and gives the version; the function-pattern grid is
  recomputed by \<^verbatim>\<open>functionPatterns\<close> on an empty grid of that size; the level is the one
  the symbol records and the mask is pattern 0 (the format information in the grid is
  not read); the capacity table gives one block for the version and level; the
  Reed--Solomon step is the error-free branch \<open>rsDecodeErrorFree\<close>; the data are one
  byte-mode segment. Whatever falls outside these limits is \<open>None\<close>.
\<close>

function zigzagCells :: "int \<Rightarrow> int \<Rightarrow> (int \<times> int) list" where
  "zigzagCells sz col =
     (if col > 0
      then concat (map (\<lambda>rowIter.
               [(if go_rem (go_quot ((if col = 6 then col - 1 else col) + 1) 2) 2 = 0
                 then sz - 1 - rowIter else rowIter, if col = 6 then col - 1 else col),
                (if go_rem (go_quot ((if col = 6 then col - 1 else col) + 1) 2) 2 = 0
                 then sz - 1 - rowIter else rowIter, (if col = 6 then col - 1 else col) - 1)])
             [0..sz - 1])
           @ zigzagCells sz ((if col = 6 then col - 1 else col) - 2)
      else [])"
  by pat_completeness auto
termination
  by (relation "measure (\<lambda>(sz, col). nat col)") auto

declare zigzagCells.simps [simp del]

definition unmask0 :: "int \<Rightarrow> int \<Rightarrow> bool \<Rightarrow> bool" where
  "unmask0 r c b = (if go_rem (r + c) 2 = 0 then \<not> b else b)"

definition readCell :: "bool list list \<Rightarrow> bool list list \<Rightarrow> int \<times> int \<Rightarrow> bool list \<Rightarrow> panic + bool list" where
  "readCell F g rc acc =
     bindE (getCell F (fst rc) (snd rc)) (\<lambda>f.
       if \<not> f then bindE (getCell g (fst rc) (snd rc)) (\<lambda>b. Inr (acc @ [unmask0 (fst rc) (snd rc) b]))
       else Inr acc)"

definition readSymbolBits :: "bool list list \<Rightarrow> bool list list \<Rightarrow> int \<Rightarrow> panic + bool list" where
  "readSymbolBits F g sz = foldE (readCell F g) (zigzagCells sz (sz - 1)) []"

definition readCodewords :: "bool list \<Rightarrow> nat \<Rightarrow> int list" where
  "readCodewords bits n = map (\<lambda>k. bitsValue (take 8 (drop (8 * k) bits))) [0..<n]"

definition decodeSymbol :: "QRCode \<Rightarrow> string option" where
  "decodeSymbol qr =
     (let sz = Size qr; v = (sz - 21) div 4 + 1; info = versionLookup v (Level qr);
          total = nat (TotalCodewords info)
      in if 21 \<le> sz \<and> (sz - 21) mod 4 = 0 \<and> Blocks info = 1
         then (case functionPatterns sz v (emptyLayout sz) of
                 Inl e \<Rightarrow> None
               | Inr lay \<Rightarrow>
                   (case readSymbolBits (isFunction lay) (Modules qr) sz of
                      Inl e \<Rightarrow> None
                    | Inr bits \<Rightarrow>
                        if length bits < 8 * total then None
                        else (case rsDecodeErrorFree (readCodewords bits total)
                                     (nat (ECCodewords info)) of
                                None \<Rightarrow> None
                              | Some data \<Rightarrow> decodeByteSegment data)))
         else None)"

section \<open>Auxiliary notions of the proofs\<close>

text \<open>
  \<open>succeeds I m\<close>: the computation \<open>m\<close> does not panic and its result satisfies \<open>I\<close>.
  \<open>gridOK sz g\<close>: the grid \<open>g\<close> has \<open>sz\<close> rows of \<open>sz\<close> cells; \<open>layoutOK\<close> says so of both
  grids of a layout, \<open>placeOK\<close> adds that the bit counter is not negative, and
  \<open>darkCellIs sz b\<close> that the module at \<open>(sz - 8, 8)\<close> has the value \<open>b\<close>.
\<close>

definition succeeds :: "('s \<Rightarrow> bool) \<Rightarrow> 'e + 's \<Rightarrow> bool" where
  "succeeds I m = (case m of Inl e \<Rightarrow> False | Inr s \<Rightarrow> I s)"

definition gridOK :: "int \<Rightarrow> bool list list \<Rightarrow> bool" where
  "gridOK sz g = (int (length g) = sz \<and> (\<forall>row \<in> set g. int (length row) = sz))"

definition layoutOK :: "int \<Rightarrow> layout \<Rightarrow> bool" where
  "layoutOK sz lay = (gridOK sz (modules lay) \<and> gridOK sz (isFunction lay))"

definition placeOK :: "int \<Rightarrow> layout \<times> int \<Rightarrow> bool" where
  "placeOK sz st = (layoutOK sz (fst st) \<and> 0 \<le> snd st)"

definition darkCellIs :: "int \<Rightarrow> bool \<Rightarrow> layout \<Rightarrow> bool" where
  "darkCellIs sz b lay = (layoutOK sz lay \<and> modules lay ! nat (sz - 8) ! 8 = b)"

text \<open>
  \<open>symbolOK v level qr\<close>: the symbol \<open>qr\<close> has version \<open>v\<close>, level \<open>level\<close>, the size of
  version \<open>v\<close>, a square grid of that size, and at \<open>(Size - 8, 8)\<close> bit 8 of the format
  word of \<open>level\<close>.
\<close>

definition symbolOK :: "int \<Rightarrow> int \<Rightarrow> QRCode \<Rightarrow> bool" where
  "symbolOK v level qr =
     (Version qr = v \<and> Level qr = level \<and> Size qr = 21 + 4 * (v - 1) \<and>
      gridOK (Size qr) (Modules qr) \<and>
      Modules qr ! nat (Size qr - 8) ! 8 = bit (formatPolyOf level) 8)"

text \<open>
  Field elements are the integers 0..255 (\<open>inF\<close>, and \<open>listF\<close> for lists of them).
  \<open>mulP\<close> is the value \<^verbatim>\<open>gfMul\<close> returns on field elements, \<open>xtime\<close> the doubling step
  of \<^verbatim>\<open>init\<close>. \<open>evalP p x\<close> is the value of the polynomial \<open>p\<close> at \<open>x\<close>, and \<open>evalFrom\<close>
  the same Horner iteration from a given accumulator.
\<close>

definition inF :: "int \<Rightarrow> bool" where
  "inF x = (0 \<le> x \<and> x \<le> 255)"

definition mulP :: "int \<Rightarrow> int \<Rightarrow> int" where
  "mulP x y = (if x = 0 \<or> y = 0 then 0
     else expTable ! nat ((logTable ! nat x + logTable ! nat y) mod 255))"

definition xtime :: "int \<Rightarrow> int" where
  "xtime a = (if a * 2 \<ge> 256 then (a * 2) XOR 0x11D else a * 2)"

definition listF :: "int list \<Rightarrow> bool" where
  "listF p = (\<forall>c \<in> set p. inF c)"

definition evalFrom :: "int \<Rightarrow> int list \<Rightarrow> int \<Rightarrow> int" where
  "evalFrom a p x = foldl (\<lambda>acc c. mulP acc x XOR c) a p"

definition evalP :: "int list \<Rightarrow> int \<Rightarrow> int" where
  "evalP p x = evalFrom 0 p x"

text \<open>
  \<open>genStep e gen\<close> is the product of \<open>gen\<close> and the factor \<open>x + e\<close>; \<open>shifted i vs len\<close>
  is \<open>vs\<close> placed at offset \<open>i\<close> in a list of \<open>len\<close> zeros. \<open>isGenerator n gen\<close>: \<open>gen\<close>
  is monic of degree \<open>n\<close> and vanishes at \<open>expTable[0..n-1]\<close>. \<open>divInv\<close> is the invariant
  of the division loop of \<^verbatim>\<open>CalculateECCodewords\<close> after \<open>i\<close> steps: the first \<open>i\<close>
  entries of the remainder are zero and its value at the root \<open>x\<close> is still \<open>v\<close>.
\<close>

definition genStep :: "int \<Rightarrow> int list \<Rightarrow> int list" where
  "genStep e gen = map2 (XOR) (gen @ [0]) (0 # map (\<lambda>c. mulP c e) gen)"

definition shifted :: "nat \<Rightarrow> int list \<Rightarrow> nat \<Rightarrow> int list" where
  "shifted i vs len = replicate i 0 @ vs @ replicate (len - i - length vs) 0"

definition isGenerator :: "nat \<Rightarrow> int list \<Rightarrow> bool" where
  "isGenerator n gen =
     (listF gen \<and> length gen = n + 1 \<and> gen ! 0 = 1 \<and> (\<forall>j < n. evalP gen (expTable ! j) = 0))"

definition divInv :: "int list \<Rightarrow> nat \<Rightarrow> int \<Rightarrow> int \<Rightarrow> nat \<Rightarrow> int list \<Rightarrow> bool" where
  "divInv data n x v i r =
     (listF r \<and> length r = length data + n \<and> (\<forall>t < i. r ! t = 0) \<and> evalP r x = v)"

text \<open>
  For the rasterizer: \<open>imageOK d img\<close> says that \<open>img\<close> is an image on the rectangle from
  \<open>(0, 0)\<close> to \<open>(d, d)\<close> that the runtime could allocate; \<open>pixelAt img x y\<close> is the entry
  of \<^verbatim>\<open>Pix\<close> for the pixel \<open>(x, y)\<close>; \<open>paints d f S\<close> says that the drawing step \<open>f\<close> does
  not panic, sets the pixels of \<open>S\<close> to index 1 and leaves every other pixel as it was;
  \<open>moduleSquare scale r c\<close> is the square of module \<open>(r, c)\<close> behind a border of 4
  modules, and \<open>painted qr scale\<close> the union of the squares of the dark modules of \<open>qr\<close>.
\<close>

definition imageOK :: "int \<Rightarrow> paletted \<Rightarrow> bool" where
  "imageOK d img =
     (0 \<le> d \<and> d * d \<le> maxAlloc \<and> RectMin img = (0, 0) \<and> RectMax img = (d, d) \<and>
      Stride img = d \<and> length (Pix img) = nat (d * d))"

definition pixelAt :: "paletted \<Rightarrow> int \<Rightarrow> int \<Rightarrow> 8 word" where
  "pixelAt img x y = Pix img ! nat (y * Stride img + x)"

definition paints :: "int \<Rightarrow> (paletted \<Rightarrow> panic + paletted) \<Rightarrow> (int \<times> int) set \<Rightarrow> bool" where
  "paints d f S =
     (\<forall>img. imageOK d img \<longrightarrow>
        (\<exists>img'. f img = Inr img' \<and> imageOK d img' \<and>
           (\<forall>x y. 0 \<le> x \<and> x < d \<and> 0 \<le> y \<and> y < d \<longrightarrow>
              pixelAt img' x y = (if (x, y) \<in> S then 1 else pixelAt img x y))))"

definition moduleSquare :: "int \<Rightarrow> int \<Rightarrow> int \<Rightarrow> (int \<times> int) set" where
  "moduleSquare scale r c =
     {(x, y). (c + 4) * scale \<le> x \<and> x < (c + 4) * scale + scale \<and>
              (r + 4) * scale \<le> y \<and> y < (r + 4) * scale + scale}"

definition painted :: "QRCode \<Rightarrow> int \<Rightarrow> (int \<times> int) set" where
  "painted qr scale =
     (\<Union>r \<in> set [0..Size qr - 1]. \<Union>c \<in> set [0..Size qr - 1].
        if Modules qr ! nat r ! nat c then moduleSquare scale r c else {})"


definition dataCells :: "bool list list \<Rightarrow> (int \<times> int) list \<Rightarrow> (int \<times> int) list" where
  "dataCells F cs = filter (\<lambda>rc. \<not> F ! nat (fst rc) ! nat (snd rc)) cs"



definition fmtSecond :: "int \<Rightarrow> int \<Rightarrow> int \<times> int" where
  "fmtSecond sz i = (if i < 8 then (8, sz - 1 - i) else (sz - 8 + (i - 8), 8))"

definition fmtOK :: "int \<Rightarrow> bool list list \<Rightarrow> int \<Rightarrow> bool" where
  "fmtOK sz F i =
     ((case formatCell i of Some (r, c) \<Rightarrow> F ! nat r ! nat c | None \<Rightarrow> True) \<and>
      F ! nat (fst (fmtSecond sz i)) ! nat (snd (fmtSecond sz i)))"

section \<open>The exponent and logarithm tables\<close>

lemma expTable_eq [code]: "expTable =
     [1, 2, 4, 8, 16, 32, 64, 128, 29, 58, 116, 232, 205, 135, 19, 38, 76, 152, 45, 90,
     180, 117, 234, 201, 143, 3, 6, 12, 24, 48, 96, 192, 157, 39, 78, 156, 37, 74, 148,
     53, 106, 212, 181, 119, 238, 193, 159, 35, 70, 140, 5, 10, 20, 40, 80, 160, 93,
     186, 105, 210, 185, 111, 222, 161, 95, 190, 97, 194, 153, 47, 94, 188, 101, 202,
     137, 15, 30, 60, 120, 240, 253, 231, 211, 187, 107, 214, 177, 127, 254, 225, 223,
     163, 91, 182, 113, 226, 217, 175, 67, 134, 17, 34, 68, 136, 13, 26, 52, 104, 208,
     189, 103, 206, 129, 31, 62, 124, 248, 237, 199, 147, 59, 118, 236, 197, 151, 51,
     102, 204, 133, 23, 46, 92, 184, 109, 218, 169, 79, 158, 33, 66, 132, 21, 42, 84,
     168, 77, 154, 41, 82, 164, 85, 170, 73, 146, 57, 114, 228, 213, 183, 115, 230, 209,
     191, 99, 198, 145, 63, 126, 252, 229, 215, 179, 123, 246, 241, 255, 227, 219, 171,
     75, 150, 49, 98, 196, 149, 55, 110, 220, 165, 87, 174, 65, 130, 25, 50, 100, 200,
     141, 7, 14, 28, 56, 112, 224, 221, 167, 83, 166, 81, 162, 89, 178, 121, 242, 249,
     239, 195, 155, 43, 86, 172, 69, 138, 9, 18, 36, 72, 144, 61, 122, 244, 245, 247,
     243, 251, 235, 203, 139, 11, 22, 44, 88, 176, 125, 250, 233, 207, 131, 27, 54, 108,
     216, 173, 71, 142, 0]"
  by code_simp

lemma logTable_eq [code]: "logTable =
     [0, 0, 1, 25, 2, 50, 26, 198, 3, 223, 51, 238, 27, 104, 199, 75, 4, 100, 224, 14,
     52, 141, 239, 129, 28, 193, 105, 248, 200, 8, 76, 113, 5, 138, 101, 47, 225, 36,
     15, 33, 53, 147, 142, 218, 240, 18, 130, 69, 29, 181, 194, 125, 106, 39, 249, 185,
     201, 154, 9, 120, 77, 228, 114, 166, 6, 191, 139, 98, 102, 221, 48, 253, 226, 152,
     37, 179, 16, 145, 34, 136, 54, 208, 148, 206, 143, 150, 219, 189, 241, 210, 19, 92,
     131, 56, 70, 64, 30, 66, 182, 163, 195, 72, 126, 110, 107, 58, 40, 84, 250, 133,
     186, 61, 202, 94, 155, 159, 10, 21, 121, 43, 78, 212, 229, 172, 115, 243, 167, 87,
     7, 112, 192, 247, 140, 128, 99, 13, 103, 74, 222, 237, 49, 197, 254, 24, 227, 165,
     153, 119, 38, 184, 180, 124, 17, 68, 146, 217, 35, 32, 137, 46, 55, 63, 209, 91,
     149, 188, 207, 205, 144, 135, 151, 178, 220, 252, 190, 97, 242, 86, 211, 171, 20,
     42, 93, 158, 132, 60, 57, 83, 71, 109, 65, 162, 31, 45, 67, 216, 183, 123, 164,
     118, 196, 23, 73, 236, 127, 12, 111, 246, 108, 161, 59, 82, 41, 157, 85, 170, 251,
     96, 134, 177, 187, 204, 62, 90, 203, 89, 95, 176, 156, 169, 160, 81, 11, 245, 22,
     235, 122, 117, 44, 215, 79, 174, 213, 233, 230, 231, 173, 232, 116, 214, 244, 234,
     168, 80, 88, 175]"
  by code_simp

lemma length_expTable: "length expTable = 256"
  by code_simp

lemma length_logTable: "length logTable = 256"
  by code_simp

lemma exp_entries_all:
  "list_all (\<lambda>i. 1 \<le> expTable ! i \<and> expTable ! i \<le> 255 \<and>
      logTable ! nat (expTable ! i) = int i) [0..<255]"
  by code_simp

lemma log_entries_all:
  "list_all (\<lambda>x. 0 \<le> logTable ! x \<and> logTable ! x < 255 \<and>
      expTable ! nat (logTable ! x) = int x) [1..<256]"
  by code_simp

lemma exp_distinct: "distinct (take 255 expTable)"
  by code_simp

lemma exp_entry:
  assumes "i < 255"
  shows "1 \<le> expTable ! i" and "expTable ! i \<le> 255" and "logTable ! nat (expTable ! i) = int i"
  using exp_entries_all assms by (simp_all add: list_all_iff)

lemma log_entry:
  assumes "1 \<le> x" and "x \<le> 255"
  shows "0 \<le> logTable ! nat x" and "logTable ! nat x < 255"
    and "expTable ! nat (logTable ! nat x) = x"
proof -
  have "nat x \<in> set [1..<256]" using assms by auto
  then have "0 \<le> logTable ! nat x \<and> logTable ! nat x < 255 \<and>
      expTable ! nat (logTable ! nat x) = int (nat x)"
    using log_entries_all unfolding list_all_iff by blast
  then show "0 \<le> logTable ! nat x" and "logTable ! nat x < 255"
    and "expTable ! nat (logTable ! nat x) = x"
    using assms by simp_all
qed

text \<open>The multiplication and division the source computes on field elements, without
  the failure wrapper: auxiliary, for the proofs below.\<close>

lemma go_rem_nonneg: "0 \<le> a \<Longrightarrow> 0 < b \<Longrightarrow> go_rem a b = a mod b"
  by (cases "a = 0") (simp_all add: go_rem_def)

lemma tableGet_exp: "0 \<le> i \<Longrightarrow> i < 256 \<Longrightarrow> tableGet expTable i = Inr (expTable ! nat i)"
  by (simp add: tableGet_def length_expTable)

lemma tableGet_log: "0 \<le> i \<Longrightarrow> i < 256 \<Longrightarrow> tableGet logTable i = Inr (logTable ! nat i)"
  by (simp add: tableGet_def length_logTable)

lemma gfMul_nonzero:
  assumes "1 \<le> x" "x \<le> 255" "1 \<le> y" "y \<le> 255"
  shows "gfMul x y = Inr (expTable ! nat ((logTable ! nat x + logTable ! nat y) mod 255))"
proof -
  have lx: "0 \<le> logTable ! nat x" "logTable ! nat x < 255" using log_entry assms by auto
  have ly: "0 \<le> logTable ! nat y" "logTable ! nat y < 255" using log_entry assms by auto
  have r: "go_rem (logTable ! nat x + logTable ! nat y) 255 = (logTable ! nat x + logTable ! nat y) mod 255"
    using lx ly by (simp add: go_rem_nonneg)
  have b: "0 \<le> (logTable ! nat x + logTable ! nat y) mod 255" "(logTable ! nat x + logTable ! nat y) mod 255 < 256"
    by simp_all
  show ?thesis
    using assms by (simp add: gfMul_def bindE_def tableGet_log r tableGet_exp [OF b])
qed

lemma gfDiv_nonzero:
  assumes "1 \<le> x" "x \<le> 255" "1 \<le> y" "y \<le> 255"
  shows "gfDiv x y = Inr (expTable ! nat ((logTable ! nat x + 255 - logTable ! nat y) mod 255))"
proof -
  have lx: "0 \<le> logTable ! nat x" "logTable ! nat x < 255" using log_entry assms by auto
  have ly: "0 \<le> logTable ! nat y" "logTable ! nat y < 255" using log_entry assms by auto
  have r: "go_rem (logTable ! nat x + 255 - logTable ! nat y) 255 = (logTable ! nat x + 255 - logTable ! nat y) mod 255"
    using lx ly by (simp add: go_rem_nonneg)
  have b: "0 \<le> (logTable ! nat x + 255 - logTable ! nat y) mod 255" "(logTable ! nat x + 255 - logTable ! nat y) mod 255 < 256"
    by simp_all
  show ?thesis
    using assms by (simp add: gfDiv_def bindE_def tableGet_log r tableGet_exp [OF b])
qed

lemma gfDiv_not_DivideByZero: "y \<noteq> 0 \<Longrightarrow> gfDiv x y \<noteq> Inl DivideByZero"
  by (auto simp: gfDiv_def bindE_def tableGet_def split: sum.splits)

section \<open>The bit buffer and the version search\<close>

lemma shift_and_one: "(drop_bit k (x::int) AND 1 = 1) = bit x k"
  by (simp add: bit_iff_odd_drop_bit and_one_eq mod_2_eq_odd)

lemma upto_as_upt: "[0..int n - 1] = map int [0..<n]"
proof (induction n)
  case 0
  then show ?case by simp
next
  case (Suc n)
  have "[0..int (Suc n) - 1] = [0..int n - 1] @ [int n]"
    using upto_rec2 [of 0 "int n"] by simp
  then show ?case using Suc by simp
qed

lemma Put_nat: "Put bits num (int n) = bits @ map (\<lambda>i. bit num (n - 1 - i)) [0..<n]"
proof -
  have "map (\<lambda>i. (drop_bit (nat (int n - 1 - i)) num) AND 1 = 1) (map int [0..<n]) =
        map (\<lambda>i. bit num (n - 1 - i)) [0..<n]"
    by (simp add: shift_and_one nat_diff_distrib' o_def)
  then show ?thesis
    unfolding Put_def upto_as_upt by simp
qed

lemma Put_length: "0 \<le> len \<Longrightarrow> length (Put bits num len) = length bits + nat len"
  by (simp add: Put_def)

lemma Put_zero: "Put bits 0 len = bits @ replicate (nat len) False"
  by (auto simp: Put_def map_replicate_const intro!: nth_equalityI)

lemma Put_8: "Put bits x 8 = bits @ bits8 x"
  using Put_nat [of bits x 8] by (simp add: bits8_def)

lemma length_bits8: "length (bits8 x) = 8"
  by (simp add: bits8_def)

lemma Put_4: "Put bits x 4 = bits @ [bit x 3, bit x 2, bit x 1, bit x 0]"
proof -
  have "[0..<4] = [0, 1, 2, 3::nat]" by code_simp
  then show ?thesis using Put_nat [of bits x 4] by simp
qed

lemma fold_Put_8: "fold (\<lambda>b bits. Put bits b 8) data bits = bits @ concat (map bits8 data)"
  by (induction data arbitrary: bits) (simp_all add: Put_8)

lemma headerBits_eq:
  "headerBits data = [False, True, False, False] @ bits8 (int (length data)) @ concat (map bits8 data)"
  unfolding headerBits_def fold_Put_8 by (simp add: Put_8 Put_4 ModeByte_def)

lemma length_concat_bits8: "length (concat (map bits8 data)) = 8 * length data"
  by (induction data) (simp_all add: length_bits8)

lemma length_headerBits: "length (headerBits data) = 12 + 8 * length data"
  by (simp add: headerBits_eq length_bits8 length_concat_bits8)

lemma padLoop_eq:
  "cap - int (length bits) = 8 * int k \<Longrightarrow> padIdx < 2 \<Longrightarrow>
   padLoop cap bits padIdx = bits @ concat (map (\<lambda>j. bits8 (padBytes ! ((padIdx + j) mod 2))) [0..<k])"
proof (induction k arbitrary: bits padIdx)
  case 0
  then show ?case by (simp add: padLoop.simps)
next
  case (Suc k)
  have lt: "int (length bits) < cap" using Suc.prems by simp
  have "cap - int (length (Put bits (padBytes ! padIdx) 8)) = 8 * int k"
    using Suc.prems by (simp add: Put_8 length_bits8)
  then have "padLoop cap (Put bits (padBytes ! padIdx) 8) ((padIdx + 1) mod 2) =
      Put bits (padBytes ! padIdx) 8 @
      concat (map (\<lambda>j. bits8 (padBytes ! (((padIdx + 1) mod 2 + j) mod 2))) [0..<k])"
    by (intro Suc.IH) simp_all
  moreover have "(map (\<lambda>j. bits8 (padBytes ! ((padIdx + j) mod 2))) [0..<Suc k]) =
     bits8 (padBytes ! padIdx) # map (\<lambda>j. bits8 (padBytes ! (((padIdx + 1) mod 2 + j) mod 2))) [0..<k]"
  proof -
    have "\<And>j. (padIdx + Suc j) mod 2 = ((padIdx + 1) mod 2 + j) mod 2"
      by (simp add: mod_simps)
    then show ?thesis
      using Suc.prems(2) by (simp only: map_upt_Suc) simp
  qed
  ultimately show ?case
    using lt by (subst padLoop.simps) (simp add: Put_8 del: upt_Suc)
qed

lemma padLoop_padSeq:
  assumes "cap - int (length bits) = 8 * int k"
  shows "padLoop cap bits 0 = bits @ padSeq k"
proof -
  have "(\<lambda>j::nat. bits8 (padBytes ! ((0 + j) mod 2))) = (\<lambda>j. bits8 (if even j then 0xEC else 0x11))"
    by (auto simp: padBytes_def fun_eq_iff even_iff_mod_2_eq_zero odd_iff_mod_2_eq_one)
  then show ?thesis
    using padLoop_eq [OF assms, of 0] by (simp add: padSeq_def)
qed


lemma findVersion_Some:
  assumes "findVersion [1, 2, 3, 4] n level = Some (v, info)"
  shows "v \<in> {1, 2, 3, 4}" and "info = versionLookup v level" and "versionFits n level v"
    and "\<forall>ver. 1 \<le> ver \<and> ver < v \<longrightarrow> \<not> versionFits n level ver"
proof -
  have a: "\<And>ver::int. 1 \<le> ver \<Longrightarrow> ver < 2 \<Longrightarrow> ver = 1" by simp
  have b: "\<And>ver::int. 1 \<le> ver \<Longrightarrow> ver < 3 \<Longrightarrow> ver = 1 \<or> ver = 2" by arith
  have c: "\<And>ver::int. 1 \<le> ver \<Longrightarrow> ver < 4 \<Longrightarrow> ver = 1 \<or> ver = 2 \<or> ver = 3" by arith
  show "v \<in> {1, 2, 3, 4}" and "info = versionLookup v level" and "versionFits n level v"
    using assms by (auto simp: Let_def versionFits_def split: if_splits)
  show "\<forall>ver. 1 \<le> ver \<and> ver < v \<longrightarrow> \<not> versionFits n level ver"
    using assms by (auto simp: Let_def versionFits_def split: if_splits dest: a b c)
qed

lemma findVersion_None:
  "findVersion [1, 2, 3, 4] n level = None \<longleftrightarrow> (\<forall>ver \<in> {1, 2, 3, 4}. \<not> versionFits n level ver)"
  by (auto simp: Let_def versionFits_def split: if_splits)

lemma buildSymbol_fields:
  assumes "buildSymbol data level v vInfo = Inr qr"
  shows "Version qr = v" and "Level qr = level" and "Size qr = 21 + 4 * (v - 1)"
  using assms
  by (auto simp: buildSymbol_def Let_def bindE_def split: sum.splits prod.splits)

lemma NewQRCode_Inr:
  assumes "NewQRCode content level = Inr qr"
  shows "\<exists>v vInfo. findVersion [1, 2, 3, 4] (length content) level = Some (v, vInfo) \<and>
     buildSymbol (contentBytes content) level v vInfo = Inr qr"
  using assms
  by (auto simp: NewQRCode_def contentBytes_def split: option.splits sum.splits)

lemma NewQRCode_ContentTooLong:
  "NewQRCode content level = Inl ContentTooLong \<longleftrightarrow>
     findVersion [1, 2, 3, 4] (length content) level = None"
  by (auto simp: NewQRCode_def contentBytes_def split: option.splits sum.splits)

lemma versionLookup_L:
  "versionLookup 1 LevelL = \<lparr>TotalCodewords = 26, ECCodewords = 7, Blocks = 1\<rparr>"
  "versionLookup 2 LevelL = \<lparr>TotalCodewords = 44, ECCodewords = 10, Blocks = 1\<rparr>"
  "versionLookup 3 LevelL = \<lparr>TotalCodewords = 70, ECCodewords = 15, Blocks = 1\<rparr>"
  "versionLookup 4 LevelL = \<lparr>TotalCodewords = 100, ECCodewords = 20, Blocks = 1\<rparr>"
  by (simp_all add: versionLookup_def versionTable_def LevelL_def LevelM_def LevelQ_def LevelH_def)

lemma versionLookup_M:
  "versionLookup 1 LevelM = \<lparr>TotalCodewords = 26, ECCodewords = 10, Blocks = 1\<rparr>"
  "versionLookup 2 LevelM = \<lparr>TotalCodewords = 44, ECCodewords = 16, Blocks = 1\<rparr>"
  "versionLookup 3 LevelM = \<lparr>TotalCodewords = 70, ECCodewords = 26, Blocks = 1\<rparr>"
  "versionLookup 4 LevelM = \<lparr>TotalCodewords = 100, ECCodewords = 36, Blocks = 2\<rparr>"
  by (simp_all add: versionLookup_def versionTable_def LevelL_def LevelM_def LevelQ_def LevelH_def)

lemma versionLookup_Q:
  "versionLookup 1 LevelQ = \<lparr>TotalCodewords = 26, ECCodewords = 13, Blocks = 1\<rparr>"
  "versionLookup 2 LevelQ = \<lparr>TotalCodewords = 44, ECCodewords = 22, Blocks = 1\<rparr>"
  "versionLookup 3 LevelQ = \<lparr>TotalCodewords = 70, ECCodewords = 36, Blocks = 2\<rparr>"
  "versionLookup 4 LevelQ = \<lparr>TotalCodewords = 100, ECCodewords = 52, Blocks = 2\<rparr>"
  by (simp_all add: versionLookup_def versionTable_def LevelL_def LevelM_def LevelQ_def LevelH_def)

lemma versionLookup_H:
  "versionLookup 1 LevelH = \<lparr>TotalCodewords = 26, ECCodewords = 17, Blocks = 1\<rparr>"
  "versionLookup 2 LevelH = \<lparr>TotalCodewords = 44, ECCodewords = 28, Blocks = 1\<rparr>"
  "versionLookup 3 LevelH = \<lparr>TotalCodewords = 70, ECCodewords = 44, Blocks = 2\<rparr>"
  "versionLookup 4 LevelH = \<lparr>TotalCodewords = 100, ECCodewords = 64, Blocks = 4\<rparr>"
  by (simp_all add: versionLookup_def versionTable_def LevelL_def LevelM_def LevelQ_def LevelH_def)

lemmas versionLookup_simps = versionLookup_L versionLookup_M versionLookup_Q versionLookup_H

lemma blocks_le_1:
  "\<not> Blocks (versionLookup 1 level) > 1"
  "\<not> Blocks (versionLookup 2 level) > 1"
  by (simp_all add: versionLookup_def versionTable_def LevelL_def LevelM_def LevelQ_def LevelH_def zeroVersionInfo_def)

lemma blocks_3:
  assumes "level \<in> {LevelL, LevelM, LevelQ, LevelH}" and "\<not> Blocks (versionLookup 4 level) > 1"
  shows "\<not> Blocks (versionLookup 3 level) > 1"
  using assms by (auto simp: versionLookup_simps)

lemma versionLookup_blocks:
  assumes "level \<in> {LevelL, LevelM, LevelQ, LevelH}" and "1 \<le> ver" and "ver < v" and "v \<le> 4"
    and "\<not> Blocks (versionLookup v level) > 1"
  shows "\<not> Blocks (versionLookup ver level) > 1"
proof -
  have "ver = 1 \<or> ver = 2 \<or> (ver = 3 \<and> v = 4)"
    using assms(2-4) by arith
  then show ?thesis
    using assms(1,5) blocks_le_1 blocks_3 by blast
qed

lemma dataCapacity_chosen:
  assumes "findVersion [1, 2, 3, 4] n level = Some (v, vInfo)"
  shows "\<exists>k. dataCapacity vInfo = 16 + 8 * int n + 8 * int k"
proof -
  have "4 + 8 + int n * 8 \<le> dataCapacity vInfo"
    using findVersion_Some [OF assms] by (simp add: versionFits_def)
  then have "0 \<le> TotalCodewords vInfo - ECCodewords vInfo - 2 - int n"
    by (simp add: dataCapacity_def)
  then obtain k where "TotalCodewords vInfo - ECCodewords vInfo - 2 - int n = int k"
    using nonneg_int_cases by blast
  then have "dataCapacity vInfo = 16 + 8 * int n + 8 * int k"
    by (simp add: dataCapacity_def)
  then show ?thesis ..
qed

lemma encodeData_chosen:
  assumes "dataCapacity vInfo = 16 + 8 * int (length data) + 8 * int k"
  shows "encodeData data vInfo = headerBits data @ replicate 4 False @ padSeq k"
proof -
  have t: "addTerminator (dataCapacity vInfo) (headerBits data) = headerBits data @ replicate 4 False"
    using assms by (simp add: addTerminator_def length_headerBits Put_zero)
  have a: "alignByte (headerBits data @ replicate 4 False) = headerBits data @ replicate 4 False"
    by (simp add: alignByte_def length_headerBits)
  have "dataCapacity vInfo - int (length (headerBits data @ replicate 4 False)) = 8 * int k"
    using assms by (simp add: length_headerBits)
  then show ?thesis
    unfolding encodeData_def t a by (simp add: padLoop_padSeq)
qed

lemma length_padSeq: "length (padSeq k) = 8 * k"
  by (induction k) (simp_all add: padSeq_def length_bits8)

section \<open>The matrix construction never panics\<close>

lemma succeeds_Inr [simp]: "succeeds I (Inr s) = I s"
  by (simp add: succeeds_def)

lemma succeeds_Inl [simp]: "\<not> succeeds I (Inl e)"
  by (simp add: succeeds_def)

lemma succeedsD: "succeeds I m \<Longrightarrow> \<exists>s. m = Inr s \<and> I s"
  by (cases m) simp_all

lemma succeeds_mono: "succeeds I m \<Longrightarrow> (\<And>s. I s \<Longrightarrow> J s) \<Longrightarrow> succeeds J m"
  by (cases m) simp_all

lemma succeeds_bindE:
  "succeeds J m \<Longrightarrow> (\<And>s. J s \<Longrightarrow> succeeds I (f s)) \<Longrightarrow> succeeds I (bindE m f)"
  by (cases m) (simp_all add: bindE_def)

lemma succeeds_foldE:
  "I s \<Longrightarrow> (\<And>x s. x \<in> set xs \<Longrightarrow> I s \<Longrightarrow> succeeds I (f x s)) \<Longrightarrow> succeeds I (foldE f xs s)"
proof (induction xs arbitrary: s)
  case Nil
  then show ?case by simp
next
  case (Cons x xs)
  have "succeeds I (f x s)" using Cons.prems by simp
  then show ?case
    using Cons by (auto intro!: succeeds_bindE [where J = I])
qed

lemma succeeds_whenE:
  "I s \<Longrightarrow> (cond \<Longrightarrow> succeeds I (body s)) \<Longrightarrow> succeeds I (whenE cond body s)"
  by (simp add: whenE_def)

lemma foldE_append: "foldE f (xs @ ys) s = bindE (foldE f xs s) (foldE f ys)"
  by (induction xs arbitrary: s) (simp_all add: bindE_def split: sum.splits)

lemma gridOK_nth: "gridOK sz g \<Longrightarrow> 0 \<le> r \<Longrightarrow> r < sz \<Longrightarrow> int (length (g ! nat r)) = sz"
  by (auto simp: gridOK_def)

lemma gridOK_update:
  assumes "gridOK sz g" "0 \<le> r" "r < sz"
  shows "gridOK sz (g[nat r := (g ! nat r)[nat c := b]])"
  using assms by (auto simp: gridOK_def dest!: set_update_subset_insert [THEN subsetD])

lemma setCell_ok:
  assumes "gridOK sz g" "0 \<le> r" "r < sz" "0 \<le> c" "c < sz"
  shows "setCell g r c b = Inr (g[nat r := (g ! nat r)[nat c := b]])"
  using assms gridOK_nth [OF assms(1-3)] by (simp add: setCell_def gridOK_def)

lemma getCell_ok:
  assumes "gridOK sz g" "0 \<le> r" "r < sz" "0 \<le> c" "c < sz"
  shows "getCell g r c = Inr (g ! nat r ! nat c)"
  using assms gridOK_nth [OF assms(1-3)] by (simp add: getCell_def gridOK_def)

lemma setModule_ok:
  assumes "layoutOK sz lay" "0 \<le> r" "r < sz" "0 \<le> c" "c < sz"
  shows "setModule r c b lay = Inr (lay\<lparr>modules := (modules lay)[nat r := (modules lay ! nat r)[nat c := b]]\<rparr>)"
  using assms setCell_ok [of sz "modules lay" r c b]
  by (simp add: setModule_def layoutOK_def bindE_def)

lemma markFunction_ok:
  assumes "layoutOK sz lay" "0 \<le> r" "r < sz" "0 \<le> c" "c < sz"
  shows "markFunction r c lay = Inr (lay\<lparr>isFunction := (isFunction lay)[nat r := (isFunction lay ! nat r)[nat c := True]]\<rparr>)"
  using assms setCell_ok [of sz "isFunction lay" r c True]
  by (simp add: markFunction_def layoutOK_def bindE_def)

lemma setModule_succeeds:
  assumes "layoutOK sz lay" "0 \<le> r" "r < sz" "0 \<le> c" "c < sz"
  shows "succeeds (layoutOK sz) (setModule r c b lay)"
  using assms by (simp add: setModule_ok [OF assms] layoutOK_def gridOK_update)

lemma markFunction_succeeds:
  assumes "layoutOK sz lay" "0 \<le> r" "r < sz" "0 \<le> c" "c < sz"
  shows "succeeds (layoutOK sz) (markFunction r c lay)"
  using assms by (simp add: markFunction_ok [OF assms] layoutOK_def gridOK_update)

lemma putFunction_succeeds:
  assumes "layoutOK sz lay" "0 \<le> r" "r < sz" "0 \<le> c" "c < sz"
  shows "succeeds (layoutOK sz) (putFunction r c b lay)"
  unfolding putFunction_def
  using assms by (intro succeeds_bindE [where J = "layoutOK sz"] markFunction_succeeds setModule_succeeds)

lemma unlessFunction_succeeds:
  assumes "layoutOK sz lay" "0 \<le> r" "r < sz" "0 \<le> c" "c < sz"
    and "succeeds (layoutOK sz) (body lay)"
  shows "succeeds (layoutOK sz) (unlessFunction r c body lay)"
  using assms getCell_ok [of sz "isFunction lay" r c]
  by (simp add: unlessFunction_def layoutOK_def bindE_def)

lemma addFinderPattern_succeeds:
  assumes "layoutOK sz lay"
  shows "succeeds (layoutOK sz) (addFinderPattern sz r c lay)"
  unfolding addFinderPattern_def
  by (intro succeeds_foldE assms) (auto intro!: putFunction_succeeds)

lemma addSeparators_succeeds:
  assumes "layoutOK sz lay"
  shows "succeeds (layoutOK sz) (addSeparators sz lay)"
  unfolding addSeparators_def
  by (intro succeeds_bindE [where J = "layoutOK sz"] succeeds_foldE succeeds_whenE assms)
     (auto intro!: putFunction_succeeds)

lemma drawAlignment_succeeds:
  assumes "layoutOK sz lay" "2 \<le> cx" "cx + 2 < sz" "2 \<le> cy" "cy + 2 < sz"
  shows "succeeds (layoutOK sz) (drawAlignment cx cy lay)"
  unfolding drawAlignment_def
  using assms(2-5)
  by (intro succeeds_foldE assms(1) unlessFunction_succeeds putFunction_succeeds) auto

lemma addAlignmentPatterns_succeeds:
  assumes "layoutOK sz lay" "v \<in> {1, 2, 3, 4}" "sz = 21 + 4 * (v - 1)"
  shows "succeeds (layoutOK sz) (addAlignmentPatterns sz v lay)"
proof -
  have "v = 1 \<or> v = 2 \<or> v = 3 \<or> v = 4" using assms(2) by simp
  then show ?thesis
  proof (elim disjE)
    assume "v = 1"
    then show ?thesis using assms(1) by (simp add: addAlignmentPatterns_def whenE_def)
  next
    assume v: "v = 2"
    then have sz: "sz = 25" using assms(3) by simp
    show ?thesis
      using assms(1) drawAlignment_succeeds [of 25 lay 18 18]
      by (auto simp: addAlignmentPatterns_def whenE_def alignmentLocs_def v sz bindE_def
            dest!: succeedsD)
  next
    assume v: "v = 3"
    then have sz: "sz = 29" using assms(3) by simp
    show ?thesis
      using assms(1) drawAlignment_succeeds [of 29 lay 22 22]
      by (auto simp: addAlignmentPatterns_def whenE_def alignmentLocs_def v sz bindE_def
            dest!: succeedsD)
  next
    assume v: "v = 4"
    then have sz: "sz = 33" using assms(3) by simp
    show ?thesis
      using assms(1) drawAlignment_succeeds [of 33 lay 26 26]
      by (auto simp: addAlignmentPatterns_def whenE_def alignmentLocs_def v sz bindE_def
            dest!: succeedsD)
  qed
qed

lemma addTimingPatterns_succeeds:
  assumes "layoutOK sz lay" "9 \<le> sz"
  shows "succeeds (layoutOK sz) (addTimingPatterns sz lay)"
  unfolding addTimingPatterns_def
  using assms(2)
  by (intro succeeds_foldE assms(1) succeeds_bindE [where J = "layoutOK sz"]
        unlessFunction_succeeds putFunction_succeeds) auto

lemma addDarkModule_succeeds:
  assumes "layoutOK sz lay" "9 \<le> sz"
  shows "succeeds (layoutOK sz) (addDarkModule sz lay)"
  unfolding addDarkModule_def
  using assms by (intro putFunction_succeeds) auto

lemma reserveFormatAreas_succeeds:
  assumes "layoutOK sz lay" "9 \<le> sz"
  shows "succeeds (layoutOK sz) (reserveFormatAreas sz lay)"
  unfolding reserveFormatAreas_def
  using assms(2)
  by (intro succeeds_foldE assms(1) succeeds_bindE [where J = "layoutOK sz"]
        unlessFunction_succeeds markFunction_succeeds) auto

lemma functionPatterns_succeeds:
  assumes "layoutOK sz lay" "v \<in> {1, 2, 3, 4}" "sz = 21 + 4 * (v - 1)"
  shows "succeeds (layoutOK sz) (functionPatterns sz v lay)"
proof -
  have sz: "9 \<le> sz" using assms(2,3) by auto
  show ?thesis
    unfolding functionPatterns_def
    by (intro succeeds_bindE [where J = "layoutOK sz"] addFinderPattern_succeeds
          addSeparators_succeeds addAlignmentPatterns_succeeds addTimingPatterns_succeeds
          addDarkModule_succeeds reserveFormatAreas_succeeds assms sz)
qed

lemma emptyLayout_OK: "0 \<le> sz \<Longrightarrow> layoutOK sz (emptyLayout sz)"
  by (simp add: layoutOK_def gridOK_def emptyLayout_def)

lemma go_quot_nonneg: "0 \<le> a \<Longrightarrow> 0 < b \<Longrightarrow> go_quot a b = a div b"
  by (cases "a = 0") (simp_all add: go_quot_def)

lemma getBit_ok:
  assumes "0 \<le> k" "k < int (length msg) * 8"
  shows "\<exists>b. getBit msg k = Inr b"
proof -
  have "k div 8 < int (length msg)" using assms by simp
  moreover have "0 \<le> k div 8" using assms by simp
  ultimately show ?thesis
    using assms by (simp add: getBit_def go_quot_nonneg Let_def)
qed

lemma placeCell_succeeds:
  assumes "placeOK sz st" "0 \<le> r" "r < sz" "0 \<le> c" "c < sz"
  shows "succeeds (placeOK sz) (placeCell msg r c st)"
proof -
  obtain lay idx where st: "st = (lay, idx)" by (cases st)
  have ok: "layoutOK sz lay" "0 \<le> idx" using assms(1) by (simp_all add: placeOK_def st)
  have g: "getCell (isFunction lay) r c = Inr (isFunction lay ! nat r ! nat c)"
    using getCell_ok [of sz "isFunction lay" r c] ok assms by (simp add: layoutOK_def)
  show ?thesis
  proof (cases "isFunction lay ! nat r ! nat c")
    case True
    then show ?thesis using assms(1) by (simp add: placeCell_def st g bindE_def)
  next
    case False
    have w: "\<And>b. succeeds (layoutOK sz) (setModule r c b lay)"
      using setModule_succeeds ok assms by simp
    show ?thesis
    proof (cases "idx < int (length msg) * 8")
      case True
      then obtain b where b: "getBit msg idx = Inr b" using getBit_ok ok by blast
      show ?thesis
        using w [of "if go_rem (r + c) 2 = 0 then \<not> b else b"] ok True False
        by (auto simp: placeCell_def st g bindE_def b placeOK_def dest!: succeedsD)
    next
      case nt: False
      show ?thesis
        using w [of "if go_rem (r + c) 2 = 0 then \<not> False else False"] ok nt False
        by (auto simp: placeCell_def st g bindE_def placeOK_def dest!: succeedsD)
    qed
  qed
qed

lemma placeColumn_succeeds:
  assumes "placeOK sz st" "1 \<le> col" "col < sz"
  shows "succeeds (placeOK sz) (placeColumn msg sz col st)"
  unfolding placeColumn_def
  using assms(2,3)
  by (intro succeeds_foldE assms(1) placeCell_succeeds) auto

lemma placeColumns_succeeds:
  "placeOK sz st \<Longrightarrow> col < sz \<Longrightarrow> succeeds (placeOK sz) (placeColumns msg sz col st)"
proof (induction msg sz col st rule: placeColumns.induct)
  case (1 msg sz col st)
  show ?case
  proof (cases "col > 0")
    case False
    then show ?thesis using "1.prems" by (subst placeColumns.simps) simp
  next
    case True
    define col' where "col' = (if col = 6 then col - 1 else col)"
    have c: "1 \<le> col'" "col' < sz" using True "1.prems" by (auto simp: col'_def)
    have "succeeds (placeOK sz) (placeColumn msg sz col' st)"
      using placeColumn_succeeds [OF "1.prems"(1) c] .
    then obtain st' where st': "placeColumn msg sz col' st = Inr st'" "placeOK sz st'"
      by (auto dest!: succeedsD)
    have "succeeds (placeOK sz) (placeColumns msg sz (col' - 2) st')"
      using "1.IH" [OF True, of st'] st' c by (simp add: col'_def)
    then show ?thesis
      using True st' by (subst placeColumns.simps) (simp add: col'_def)
  qed
qed

lemma setModule_dark_set:
  assumes "layoutOK sz lay" "9 \<le> sz"
  shows "succeeds (darkCellIs sz b) (setModule (sz - 8) 8 b lay)"
proof -
  have r: "0 \<le> sz - 8" "sz - 8 < sz" "(0::int) \<le> 8" "8 < sz" using assms(2) by simp_all
  have len: "nat (sz - 8) < length (modules lay)"
    using assms by (auto simp: layoutOK_def gridOK_def)
  have row: "8 < length (modules lay ! nat (sz - 8))"
    using gridOK_nth [of sz "modules lay" "sz - 8"] assms by (simp add: layoutOK_def)
  have ok: "layoutOK sz (lay\<lparr>modules := (modules lay)[nat (sz - 8) := (modules lay ! nat (sz - 8))[nat 8 := b]]\<rparr>)"
    using setModule_succeeds [OF assms(1) r, of b] by (simp add: setModule_ok [OF assms(1) r])
  show ?thesis
    using len row ok by (simp add: setModule_ok [OF assms(1) r] darkCellIs_def)
qed

lemma setModule_dark_other:
  assumes "darkCellIs sz b lay" "9 \<le> sz" "0 \<le> r" "r < sz" "0 \<le> c" "c < sz"
    and "r \<noteq> sz - 8 \<or> c \<noteq> 8"
  shows "succeeds (darkCellIs sz b) (setModule r c x lay)"
proof -
  have lay: "layoutOK sz lay" using assms(1) by (simp add: darkCellIs_def)
  have len: "nat r < length (modules lay)"
    using lay assms by (auto simp: layoutOK_def gridOK_def)
  have ok: "layoutOK sz (lay\<lparr>modules := (modules lay)[nat r := (modules lay ! nat r)[nat c := x]]\<rparr>)"
    using setModule_succeeds [OF lay assms(3-6), of x] by (simp add: setModule_ok [OF lay assms(3-6)])
  have ne: "nat r \<noteq> nat (sz - 8) \<or> nat c \<noteq> 8"
    using assms(2,3,5,7) by auto
  have "(modules lay)[nat r := (modules lay ! nat r)[nat c := x]] ! nat (sz - 8) ! 8 =
        modules lay ! nat (sz - 8) ! 8"
    using ne len by (cases "nat r = nat (sz - 8)") (simp_all add: nth_list_update)
  then show ?thesis
    using assms(1) ok by (simp add: setModule_ok [OF lay assms(3-6)] darkCellIs_def)
qed

lemma darkCellIs_layoutOK: "darkCellIs sz b lay \<Longrightarrow> layoutOK sz lay"
  by (simp add: darkCellIs_def)

lemma foldE_single: "foldE f [x] s = f x s"
  by (cases "f x s") (simp_all add: bindE_def)

lemma formatCell_range:
  assumes "0 \<le> i" "i \<le> 14"
  shows "\<exists>r c. formatCell i = Some (r, c) \<and> 0 \<le> r \<and> r \<le> 8 \<and> 0 \<le> c \<and> c \<le> 8"
proof -
  have "i \<in> set [0..14]" using assms by simp
  then have "i \<in> {0, 1, 2, 3, 4, 5, 6, 7, 8, 9, 10, 11, 12, 13, 14}"
    by (simp add: upto_rec_numeral upto.simps)
  then show ?thesis
    by (auto simp: formatCell_def)
qed

lemma formatCell_late:
  assumes "9 \<le> i" "i \<le> 14"
  shows "\<exists>c. formatCell i = Some (8, c) \<and> 0 \<le> c \<and> c \<le> 8"
proof -
  have "i = 9 \<or> i = 10 \<or> i = 11 \<or> i = 12 \<or> i = 13 \<or> i = 14" using assms by arith
  then show ?thesis
    by (auto simp: formatCell_def)
qed

lemma writeFormatBit_succeeds:
  assumes "layoutOK sz lay" "21 \<le> sz" "0 \<le> i" "i \<le> 14"
  shows "succeeds (layoutOK sz) (writeFormatBit sz fp i lay)"
proof -
  obtain r c where rc: "formatCell i = Some (r, c)" "0 \<le> r" "r \<le> 8" "0 \<le> c" "c \<le> 8"
    using formatCell_range [OF assms(3,4)] by blast
  show ?thesis
    unfolding writeFormatBit_def Let_def rc(1)
    using assms(2-4) rc(2-5)
    by (intro succeeds_bindE [where J = "layoutOK sz"]) (auto intro!: setModule_succeeds assms(1))
qed

lemma writeFormatBit_8:
  assumes "layoutOK sz lay" "21 \<le> sz"
  shows "succeeds (darkCellIs sz (bit fp 8)) (writeFormatBit sz fp 8 lay)"
proof -
  have 1: "succeeds (layoutOK sz) (setModule 8 7 (bit fp 8) lay)"
    using assms by (intro setModule_succeeds) auto
  have 2: "\<And>lay'. layoutOK sz lay' \<Longrightarrow>
      succeeds (darkCellIs sz (bit fp 8)) (setModule (sz - 8) 8 (bit fp 8) lay')"
    using assms(2) by (intro setModule_dark_set) auto
  have "writeFormatBit sz fp 8 lay =
      bindE (setModule 8 7 (bit fp 8) lay) (setModule (sz - 8) 8 (bit fp 8))"
    by (simp add: writeFormatBit_def formatCell_def shift_and_one Let_def)
  then show ?thesis
    using 1 2 by (auto intro!: succeeds_bindE [where J = "layoutOK sz"])
qed

lemma writeFormatBit_late:
  assumes "darkCellIs sz b lay" "21 \<le> sz" "9 \<le> i" "i \<le> 14"
  shows "succeeds (darkCellIs sz b) (writeFormatBit sz fp i lay)"
proof -
  obtain c where c: "formatCell i = Some (8, c)" "0 \<le> c" "c \<le> 8"
    using formatCell_late [OF assms(3,4)] by blast
  have 1: "succeeds (darkCellIs sz b) (setModule 8 c (drop_bit (nat i) fp AND 1 = 1) lay)"
    using assms(1,2) c(2,3) by (intro setModule_dark_other) auto
  have 2: "\<And>lay'. darkCellIs sz b lay' \<Longrightarrow>
      succeeds (darkCellIs sz b) (setModule (sz - 8 + (i - 8)) 8 (drop_bit (nat i) fp AND 1 = 1) lay')"
    using assms(2-4) by (intro setModule_dark_other) auto
  have "writeFormatBit sz fp i lay =
      bindE (setModule 8 c (drop_bit (nat i) fp AND 1 = 1) lay)
        (setModule (sz - 8 + (i - 8)) 8 (drop_bit (nat i) fp AND 1 = 1))"
    using assms(3) by (simp add: writeFormatBit_def c(1) Let_def)
  then show ?thesis
    using 1 2 by (auto intro!: succeeds_bindE [where J = "darkCellIs sz b"])
qed

lemma format_indices: "[0..14] = [0..7] @ [8] @ [9..14]"
proof -
  have "[0..14] = [0..7] @ [7 + 1..14]"
    by (rule upto_split2) simp_all
  then show ?thesis by (simp add: upto_rec_numeral)
qed

lemma writeFormatInfo_succeeds:
  assumes "layoutOK sz lay" "21 \<le> sz"
  shows "succeeds (darkCellIs sz (bit (formatPolyOf level) 8)) (writeFormatInfo sz level lay)"
proof -
  let ?f = "writeFormatBit sz (formatPolyOf level)"
  have a: "succeeds (layoutOK sz) (foldE ?f [0..7] lay)"
    using assms(2) by (intro succeeds_foldE assms(1) writeFormatBit_succeeds) auto
  have b: "\<And>lay'. layoutOK sz lay' \<Longrightarrow>
      succeeds (darkCellIs sz (bit (formatPolyOf level) 8)) (foldE ?f [8] lay')"
    unfolding foldE_single using assms(2) by (intro writeFormatBit_8)
  have c: "\<And>lay'. darkCellIs sz (bit (formatPolyOf level) 8) lay' \<Longrightarrow>
      succeeds (darkCellIs sz (bit (formatPolyOf level) 8)) (foldE ?f [9..14] lay')"
    using assms(2) by (intro succeeds_foldE writeFormatBit_late) auto
  show ?thesis
    unfolding writeFormatInfo_def format_indices foldE_append
    by (intro succeeds_bindE [where J = "layoutOK sz"] a
          succeeds_bindE [where J = "darkCellIs sz (bit (formatPolyOf level) 8)"] b c)
qed

section \<open>Field laws of the table-driven multiplication\<close>

lemma gfMul_eq: "inF x \<Longrightarrow> inF y \<Longrightarrow> gfMul x y = Inr (mulP x y)"
  using gfMul_nonzero [of x y]
  by (cases "x = 0 \<or> y = 0") (auto simp: inF_def mulP_def gfMul_def)

lemma mulP_commute: "mulP x y = mulP y x"
  by (simp add: mulP_def add.commute disj_commute)

lemma mulP_zero [simp]: "mulP 0 y = 0" "mulP x 0 = 0"
  by (simp_all add: mulP_def)

lemma mulP_nonzero:
  assumes "inF x" "x \<noteq> 0" "inF y" "y \<noteq> 0"
  shows "1 \<le> mulP x y" "mulP x y \<le> 255"
    "logTable ! nat (mulP x y) = (logTable ! nat x + logTable ! nat y) mod 255"
proof -
  define k where "k = (logTable ! nat x + logTable ! nat y) mod 255"
  have "0 \<le> k" "k < 255" by (simp_all add: k_def)
  then have nk: "nat k < 255" by simp
  have m: "mulP x y = expTable ! nat k" using assms by (simp add: mulP_def k_def)
  show "1 \<le> mulP x y" "mulP x y \<le> 255"
    using exp_entry [OF nk] by (simp_all add: m)
  show "logTable ! nat (mulP x y) = (logTable ! nat x + logTable ! nat y) mod 255"
    using exp_entry(3) [OF nk] \<open>0 \<le> k\<close> by (simp add: m k_def)
qed

lemma mulP_inF: "inF x \<Longrightarrow> inF y \<Longrightarrow> inF (mulP x y)"
  using mulP_nonzero(1,2) [of x y]
  by (cases "x = 0 \<or> y = 0") (auto simp: inF_def)

lemma mulP_eq_0_iff: "inF x \<Longrightarrow> inF y \<Longrightarrow> mulP x y = 0 \<longleftrightarrow> x = 0 \<or> y = 0"
  using mulP_nonzero(1) [of x y] by (cases "x = 0 \<or> y = 0") auto

lemma log_1: "logTable ! Suc 0 = 0"
  by code_simp

lemma log_2: "logTable ! 2 = 1"
  by code_simp

lemma exp_0: "expTable ! 0 = 1"
  by code_simp

lemma mulP_one [simp]:
  assumes "inF x"
  shows "mulP 1 x = x" and "mulP x 1 = x"
proof -
  show "mulP 1 x = x"
  proof (cases "x = 0")
    case False
    then have x: "1 \<le> x" "x \<le> 255" using assms by (simp_all add: inF_def)
    show ?thesis
      using log_entry [OF x] False by (simp add: mulP_def log_1)
  qed simp
  then show "mulP x 1 = x" by (simp add: mulP_commute)
qed

lemma mulP_assoc:
  assumes "inF x" "inF y" "inF z"
  shows "mulP (mulP x y) z = mulP x (mulP y z)"
proof (cases "x = 0 \<or> y = 0 \<or> z = 0")
  case True
  then show ?thesis by auto
next
  case False
  then have nz: "x \<noteq> 0" "y \<noteq> 0" "z \<noteq> 0" by simp_all
  have xy: "mulP x y \<noteq> 0" "logTable ! nat (mulP x y) = (logTable ! nat x + logTable ! nat y) mod 255"
    using mulP_nonzero [OF assms(1) nz(1) assms(2) nz(2)] by simp_all
  have yz: "mulP y z \<noteq> 0" "logTable ! nat (mulP y z) = (logTable ! nat y + logTable ! nat z) mod 255"
    using mulP_nonzero [OF assms(2) nz(2) assms(3) nz(3)] by simp_all
  have "mulP (mulP x y) z = expTable ! nat ((logTable ! nat x + logTable ! nat y + logTable ! nat z) mod 255)"
    using xy nz by (simp add: mulP_def [of "mulP x y" z] mod_simps)
  moreover have "mulP x (mulP y z) = expTable ! nat ((logTable ! nat x + logTable ! nat y + logTable ! nat z) mod 255)"
    using yz nz by (simp add: mulP_def [of x "mulP y z"] mod_simps add.assoc)
  ultimately show ?thesis by simp
qed

subsection \<open>Doubling and distributivity\<close>

lemma exp_succ_all:
  "list_all (\<lambda>k. expTable ! ((k + 1) mod 255) = xtime (expTable ! k)) [0..<255]"
  by code_simp

lemma exp_succ: "k < 255 \<Longrightarrow> expTable ! ((k + 1) mod 255) = xtime (expTable ! k)"
  using exp_succ_all by (simp add: list_all_iff)

lemma mulP_two:
  assumes "inF y"
  shows "mulP 2 y = xtime y"
proof (cases "y = 0")
  case True
  then show ?thesis by (simp add: xtime_def)
next
  case False
  then have y: "1 \<le> y" "y \<le> 255" using assms by (simp_all add: inF_def)
  define k where "k = nat (logTable ! nat y)"
  have k: "k < 255" "expTable ! k = y" "logTable ! nat y = int k"
    using log_entry [OF y] by (simp_all add: k_def)
  have "(1 + int k) mod 255 = int ((k + 1) mod 255)"
    by (simp add: zmod_int)
  then have "mulP 2 y = expTable ! ((k + 1) mod 255)"
    using False by (simp add: mulP_def log_2 k(3))
  then show ?thesis
    using exp_succ [OF k(1)] k(2) by simp
qed

lemma xtime_inF: "inF a \<Longrightarrow> inF (xtime a)"
  using mulP_inF [of 2 a] by (simp add: mulP_two) (simp add: inF_def)

lemma bit7_iff: "inF a \<Longrightarrow> bit a 7 \<longleftrightarrow> 128 \<le> a"
proof -
  assume "inF a"
  then have a: "0 \<le> a" "a < 256" by (simp_all add: inF_def)
  then have "a div 128 = 0 \<or> a div 128 = 1" by (auto simp: div_eq_0_iff) 
  then show ?thesis
    using a by (auto simp: bit_iff_odd)
qed

lemma xor_inF: "inF a \<Longrightarrow> inF b \<Longrightarrow> inF (a XOR b)"
proof -
  assume "inF a" "inF b"
  then have ab: "0 \<le> a" "a < 2 ^ 8" "0 \<le> b" "b < 2 ^ 8" by (simp_all add: inF_def)
  have "a XOR b < 2 ^ 8" using XOR_upper [of a 8 b] ab by blast
  moreover have "0 \<le> a XOR b" using ab by simp
  ultimately show ?thesis by (simp add: inF_def)
qed

lemma xtime_alt: "inF a \<Longrightarrow> xtime a = push_bit 1 a XOR (if bit a 7 then 0x11D else 0)"
  by (simp add: xtime_def bit7_iff push_bit_eq_mult)

lemma xtime_xor:
  assumes "inF a" "inF b"
  shows "xtime (a XOR b) = xtime a XOR xtime b"
proof -
  have "xtime (a XOR b) = push_bit 1 (a XOR b) XOR (if bit (a XOR b) 7 then 0x11D else 0)"
    using xor_inF [OF assms] by (rule xtime_alt)
  also have "\<dots> = (push_bit 1 a XOR (if bit a 7 then 0x11D else 0)) XOR
                  (push_bit 1 b XOR (if bit b 7 then 0x11D else 0))"
    by (simp add: push_bit_xor bit_xor_iff xor.assoc xor.left_commute)
  also have "\<dots> = xtime a XOR xtime b"
    using assms by (simp add: xtime_alt)
  finally show ?thesis .
qed

lemma xtime_pow_inF: "inF a \<Longrightarrow> inF ((xtime ^^ i) a)"
  by (induction i) (simp_all add: xtime_inF)

lemma xtime_pow_xor:
  "inF a \<Longrightarrow> inF b \<Longrightarrow> (xtime ^^ i) (a XOR b) = (xtime ^^ i) a XOR (xtime ^^ i) b"
  by (induction i) (simp_all add: xtime_xor xtime_pow_inF)

lemma inF_exp: "i < 255 \<Longrightarrow> inF (expTable ! i)"
  using exp_entry [of i] by (simp add: inF_def)

lemma inF_2: "inF 2"
  by (simp add: inF_def)

lemma mulP_exp:
  assumes "inF y"
  shows "i < 255 \<Longrightarrow> mulP (expTable ! i) y = (xtime ^^ i) y"
proof (induction i)
  case 0
  then show ?case using assms by (simp add: exp_0)
next
  case (Suc i)
  then have i: "i < 255" by simp
  have "expTable ! Suc i = xtime (expTable ! i)"
    using exp_succ [OF i] Suc.prems by simp
  also have "\<dots> = mulP 2 (expTable ! i)"
    using inF_exp [OF i] by (simp add: mulP_two)
  finally have "mulP (expTable ! Suc i) y = mulP 2 (mulP (expTable ! i) y)"
    using mulP_assoc [OF inF_2 inF_exp [OF i] assms] by simp
  also have "\<dots> = xtime ((xtime ^^ i) y)"
    using Suc.IH [OF i] xtime_pow_inF [OF assms] by (simp add: mulP_two)
  finally show ?case by simp
qed

lemma mulP_distrib:
  assumes "inF x" "inF y" "inF z"
  shows "mulP x (y XOR z) = mulP x y XOR mulP x z"
proof (cases "x = 0")
  case True
  then show ?thesis by simp
next
  case False
  then have x: "1 \<le> x" "x \<le> 255" using assms(1) by (simp_all add: inF_def)
  define k where "k = nat (logTable ! nat x)"
  have k: "k < 255" "expTable ! k = x"
    using log_entry [OF x] by (simp_all add: k_def)
  show ?thesis
    using mulP_exp [OF _ k(1)] xor_inF [OF assms(2,3)] assms(2,3)
    by (simp add: k(2) xtime_pow_xor)
qed

lemma mulP_distrib_left:
  assumes "inF x" "inF y" "inF z"
  shows "mulP (y XOR z) x = mulP y x XOR mulP z x"
  using mulP_distrib [OF assms] by (simp add: mulP_commute)

section \<open>Polynomials over the field\<close>

lemma evalFrom_simps [simp]:
  "evalFrom a [] x = a"
  "evalFrom a (c # p) x = evalFrom (mulP a x XOR c) p x"
  by (simp_all add: evalFrom_def)

lemma evalFrom_append: "evalFrom a (p @ q) x = evalFrom (evalFrom a p x) q x"
  by (simp add: evalFrom_def)

lemma listF_simps [simp]:
  "listF []"
  "listF (c # p) \<longleftrightarrow> inF c \<and> listF p"
  "listF (p @ q) \<longleftrightarrow> listF p \<and> listF q"
  "listF (replicate n 0)"
  by (auto simp: listF_def inF_def)

lemma inF_0 [simp]: "inF 0" and inF_1 [simp]: "inF 1"
  by (simp_all add: inF_def)

lemma listF_nth: "listF p \<Longrightarrow> i < length p \<Longrightarrow> inF (p ! i)"
  by (simp add: listF_def)

lemma evalFrom_inF: "inF a \<Longrightarrow> listF p \<Longrightarrow> inF x \<Longrightarrow> inF (evalFrom a p x)"
  by (induction p arbitrary: a) (simp_all add: mulP_inF xor_inF)

lemma evalP_inF: "listF p \<Longrightarrow> inF x \<Longrightarrow> inF (evalP p x)"
  by (simp add: evalP_def evalFrom_inF)

lemma evalFrom_zeros [simp]: "evalFrom 0 (replicate n 0) x = 0"
  by (induction n) simp_all

lemma evalFrom_map2:
  assumes "length p = length q" "inF x"
  shows "listF p \<Longrightarrow> listF q \<Longrightarrow> inF a \<Longrightarrow> inF b \<Longrightarrow>
     evalFrom (a XOR b) (map2 (XOR) p q) x = evalFrom a p x XOR evalFrom b q x"
  using assms(1)
proof (induction p q arbitrary: a b rule: list_induct2)
  case Nil
  then show ?case by simp
next
  case (Cons c p d q)
  have "mulP (a XOR b) x XOR (c XOR d) = (mulP a x XOR c) XOR (mulP b x XOR d)"
    using mulP_distrib_left [OF assms(2) Cons.prems(3,4)]
    by (simp add: xor.assoc xor.left_commute)
  moreover have "inF (mulP a x XOR c)" "inF (mulP b x XOR d)"
    using Cons.prems assms(2) by (simp_all add: mulP_inF xor_inF)
  ultimately show ?case
    using Cons.IH [of "mulP a x XOR c" "mulP b x XOR d"] Cons.prems by simp
qed

lemma evalP_map2:
  assumes "length p = length q" "inF x" "listF p" "listF q"
  shows "evalP (map2 (XOR) p q) x = evalP p x XOR evalP q x"
  using evalFrom_map2 [OF assms, of 0 0] by (simp add: evalP_def)

lemma evalFrom_scale:
  assumes "inF c" "inF x"
  shows "listF p \<Longrightarrow> inF a \<Longrightarrow>
     evalFrom (mulP a c) (map (\<lambda>t. mulP t c) p) x = mulP (evalFrom a p x) c"
proof (induction p arbitrary: a)
  case Nil
  then show ?case by simp
next
  case (Cons t p)
  then have t: "inF t" "listF p" by simp_all
  have "mulP (mulP a c) x = mulP (mulP a x) c"
    using mulP_assoc [OF Cons.prems(2) assms] mulP_assoc [OF Cons.prems(2) assms(2,1)]
    by (simp add: mulP_commute [of c x])
  then have "mulP (mulP a c) x XOR mulP t c = mulP (mulP a x XOR t) c"
    using mulP_distrib_left [OF assms(1) mulP_inF [OF Cons.prems(2) assms(2)] t(1)] by simp
  then show ?case
    using Cons.IH [OF t(2), of "mulP a x XOR t"] Cons.prems(2) t(1) assms(2)
    by (simp add: mulP_inF xor_inF)
qed

lemma evalP_scale:
  assumes "inF c" "inF x" "listF p"
  shows "evalP (map (\<lambda>t. mulP t c) p) x = mulP (evalP p x) c"
  using evalFrom_scale [OF assms, of 0] by (simp add: evalP_def)

lemma evalP_zeros_append: "evalP (replicate n 0 @ p) x = evalP p x"
  by (simp add: evalP_def evalFrom_append)

lemma evalP_append_zeros: "evalP p x = 0 \<Longrightarrow> evalP (p @ replicate n 0) x = 0"
  by (simp add: evalP_def evalFrom_append)

lemma listF_map_mulP: "listF p \<Longrightarrow> inF c \<Longrightarrow> listF (map (\<lambda>t. mulP t c) p)"
  by (simp add: listF_def mulP_inF)

lemma listF_map2: "listF p \<Longrightarrow> listF q \<Longrightarrow> listF (map2 (XOR) p q)"
  by (auto simp: listF_def xor_inF dest!: set_zip_leftD set_zip_rightD elim!: in_set_zipE)

subsection \<open>One factor of the generator\<close>

lemma genStep_props:
  assumes "listF gen" "inF e"
  shows "listF (genStep e gen)" and "length (genStep e gen) = length gen + 1"
  using assms by (simp_all add: genStep_def listF_map2 listF_map_mulP)

lemma evalP_genStep:
  assumes "listF gen" "inF e" "inF x"
  shows "evalP (genStep e gen) x = mulP (evalP gen x) (x XOR e)"
proof -
  have 1: "evalP (gen @ [0]) x = mulP (evalP gen x) x"
    by (simp add: evalP_def evalFrom_append)
  have 2: "evalP (0 # map (\<lambda>c. mulP c e) gen) x = mulP (evalP gen x) e"
    using evalFrom_scale [OF assms(2,3,1), of 0] by (simp add: evalP_def)
  have "evalP (genStep e gen) x = evalP (gen @ [0]) x XOR evalP (0 # map (\<lambda>c. mulP c e) gen) x"
    unfolding genStep_def using assms
    by (intro evalP_map2) (simp_all add: listF_map_mulP)
  then show ?thesis
    using mulP_distrib [OF evalP_inF [OF assms(1,3)] assms(3,2)] by (simp add: 1 2)
qed

lemma genStep_head: "gen \<noteq> [] \<Longrightarrow> genStep e gen ! 0 = gen ! 0"
  by (cases gen) (simp_all add: genStep_def)

section \<open>The loops of \<^verbatim>\<open>gfPolyMul\<close> and of the division\<close>

lemma foldE_fold:
  assumes "I s" and "\<And>x s. x \<in> set xs \<Longrightarrow> I s \<Longrightarrow> f x s = Inr (g x s) \<and> I (g x s)"
  shows "foldE f xs s = Inr (fold g xs s) \<and> I (fold g xs s)"
  using assms
proof (induction xs arbitrary: s)
  case Nil
  then show ?case by simp
next
  case (Cons x xs)
  have "f x s = Inr (g x s)" "I (g x s)" using Cons.prems by simp_all
  then show ?case
    using Cons.IH [of "g x s"] Cons.prems(2) by (simp add: bindE_def)
qed

lemma length_shifted: "i + length vs \<le> len \<Longrightarrow> length (shifted i vs len) = len"
  by (simp add: shifted_def)

lemma shifted_nth:
  "i + length vs \<le> len \<Longrightarrow> t < len \<Longrightarrow>
   shifted i vs len ! t = (if i \<le> t \<and> t < i + length vs then vs ! (t - i) else 0)"
  by (auto simp: shifted_def nth_append)

lemma listF_shifted: "listF vs \<Longrightarrow> listF (shifted i vs len)"
  by (simp add: shifted_def)

lemma xor_updates_nth:
  assumes "i + length vs \<le> length r"
  shows "m \<le> length vs \<Longrightarrow>
     length (fold (\<lambda>j r. r[i + j := r ! (i + j) XOR vs ! j]) [0..<m] r) = length r \<and>
     (\<forall>t < length r. fold (\<lambda>j r. r[i + j := r ! (i + j) XOR vs ! j]) [0..<m] r ! t =
        (if i \<le> t \<and> t < i + m then r ! t XOR vs ! (t - i) else r ! t))"
proof (induction m)
  case 0
  then show ?case by auto
next
  case (Suc m)
  then have IH: "length (fold (\<lambda>j r. r[i + j := r ! (i + j) XOR vs ! j]) [0..<m] r) = length r"
    "\<And>t. t < length r \<Longrightarrow> fold (\<lambda>j r. r[i + j := r ! (i + j) XOR vs ! j]) [0..<m] r ! t =
        (if i \<le> t \<and> t < i + m then r ! t XOR vs ! (t - i) else r ! t)"
    by simp_all
  have im: "i + m < length r" using Suc.prems assms by simp
  show ?case
    using IH im by (auto simp: nth_list_update elim: less_SucE)
qed

lemma xor_updates_eq:
  assumes "i + length vs \<le> length r"
  shows "fold (\<lambda>j r. r[i + j := r ! (i + j) XOR vs ! j]) [0..<length vs] r =
         map2 (XOR) r (shifted i vs (length r))"
  using xor_updates_nth [OF assms, of "length vs"] assms
  by (intro nth_equalityI) (auto simp: length_shifted shifted_nth)

lemma xorAt_ok: "k < length r \<Longrightarrow> xorAt r k m = Inr (r[k := r ! k XOR m])"
  by (simp add: xorAt_def)

lemma foldE_xor_run:
  assumes "\<And>j. j < length vs \<Longrightarrow> val j = Inr (vs ! j)" and "i + length vs \<le> length r"
  shows "foldE (\<lambda>j r. bindE (val j) (xorAt r (i + j))) [0..<length vs] r =
         Inr (map2 (XOR) r (shifted i vs (length r)))"
proof -
  have "foldE (\<lambda>j r. bindE (val j) (xorAt r (i + j))) [0..<length vs] r =
        Inr (fold (\<lambda>j r. r[i + j := r ! (i + j) XOR vs ! j]) [0..<length vs] r) \<and>
        length (fold (\<lambda>j r. r[i + j := r ! (i + j) XOR vs ! j]) [0..<length vs] r) = length r"
    using assms
    by (intro foldE_fold [where I = "\<lambda>r'. length r' = length r"])
       (auto simp: bindE_def xorAt_ok)
  then show ?thesis
    by (simp add: xor_updates_eq [OF assms(2)])
qed

subsection \<open>\<^verbatim>\<open>gfPolyMul\<close> by a linear factor and the generator polynomial\<close>

lemma polyMul_inner:
  assumes "listF p" "inF e" "i < length p" "length res = length p + 1"
  shows "foldE (\<lambda>j res. bindE (gfMul (p ! i) ([1, e] ! j)) (xorAt res (i + j))) [0..<length [1, e]] res =
         Inr (map2 (XOR) res (shifted i [p ! i, mulP (p ! i) e] (length p + 1)))"
proof -
  have pi: "inF (p ! i)" using assms by (simp add: listF_nth)
  have "\<And>j. j < length [p ! i, mulP (p ! i) e] \<Longrightarrow>
      gfMul (p ! i) ([1, e] ! j) = Inr ([p ! i, mulP (p ! i) e] ! j)"
    using pi assms(2) by (auto simp: gfMul_eq less_Suc_eq)
  then show ?thesis
    using foldE_xor_run [of "[p ! i, mulP (p ! i) e]" "\<lambda>j. gfMul (p ! i) ([1, e] ! j)" i res]
      assms(3,4) by simp
qed

lemma polyMul_outer_nth:
  assumes "listF p" "inF e"
  shows "m \<le> length p \<Longrightarrow>
     length (fold (\<lambda>i res. map2 (XOR) res (shifted i [p ! i, mulP (p ! i) e] (length p + 1)))
        [0..<m] (replicate (length p + 1) 0)) = length p + 1 \<and>
     (\<forall>t < length p + 1.
        fold (\<lambda>i res. map2 (XOR) res (shifted i [p ! i, mulP (p ! i) e] (length p + 1)))
          [0..<m] (replicate (length p + 1) 0) ! t =
        (if t < m then p ! t else 0) XOR (if 1 \<le> t \<and> t \<le> m then mulP (p ! (t - 1)) e else 0))"
proof (induction m)
  case 0
  then show ?case by (auto simp: nth_Cons')
next
  case (Suc m)
  let ?g = "\<lambda>i res. map2 (XOR) res (shifted i [p ! i, mulP (p ! i) e] (length p + 1))"
  define R where "R = fold ?g [0..<m] (replicate (length p + 1) 0)"
  have IH: "length R = length p + 1"
    "\<And>t. t < length p + 1 \<Longrightarrow> R ! t =
        (if t < m then p ! t else 0) XOR (if 1 \<le> t \<and> t \<le> m then mulP (p ! (t - 1)) e else 0)"
    using Suc by (simp_all add: R_def)
  have step: "fold ?g [0..<Suc m] (replicate (length p + 1) 0) = ?g m R"
    by (simp add: R_def)
  have m: "m + length [p ! m, mulP (p ! m) e] \<le> length p + 1" using Suc.prems by simp
  have "\<And>t. t < length p + 1 \<Longrightarrow> ?g m R ! t =
      (if t < Suc m then p ! t else 0) XOR (if 1 \<le> t \<and> t \<le> Suc m then mulP (p ! (t - 1)) e else 0)"
  proof -
    fix t assume t: "t < length p + 1"
    have "?g m R ! t = R ! t XOR shifted m [p ! m, mulP (p ! m) e] (length p + 1) ! t"
      using t IH(1) length_shifted [OF m] by simp
    also have "\<dots> = (if t < Suc m then p ! t else 0) XOR
        (if 1 \<le> t \<and> t \<le> Suc m then mulP (p ! (t - 1)) e else 0)"
      unfolding IH(2) [OF t] shifted_nth [OF m t]
      by (auto simp: nth_Cons' xor.commute less_Suc_eq le_Suc_eq)
    finally show "?g m R ! t =
      (if t < Suc m then p ! t else 0) XOR (if 1 \<le> t \<and> t \<le> Suc m then mulP (p ! (t - 1)) e else 0)" .
  qed
  moreover have "length (?g m R) = length p + 1"
    using IH(1) length_shifted [OF m] by simp
  ultimately show ?case
    unfolding step by blast
qed

lemma genStep_nth:
  "t < length p + 1 \<Longrightarrow>
   genStep e p ! t = (if t < length p then p ! t else 0) XOR
                     (if 1 \<le> t \<and> t \<le> length p then mulP (p ! (t - 1)) e else 0)"
  by (auto simp: genStep_def nth_append nth_Cons')

lemma gfPolyMul_linear:
  assumes "listF p" "inF e"
  shows "gfPolyMul p [1, e] = Inr (genStep e p)"
proof -
  let ?g = "\<lambda>i res. map2 (XOR) res (shifted i [p ! i, mulP (p ! i) e] (length p + 1))"
  have inner: "\<And>i res. i < length p \<Longrightarrow> length res = length p + 1 \<Longrightarrow>
      foldE (\<lambda>j res. bindE (gfMul (p ! i) ([1, e] ! j)) (xorAt res (i + j))) [0..<length [1, e]] res =
        Inr (?g i res) \<and> length (?g i res) = length p + 1"
    using polyMul_inner [OF assms] by (simp add: length_shifted)
  have "foldE (\<lambda>i. foldE (\<lambda>j res. bindE (gfMul (p ! i) ([1, e] ! j)) (xorAt res (i + j)))
                  [0..<length [1, e]]) [0..<length p] (replicate (length p + 1) 0) =
        Inr (fold ?g [0..<length p] (replicate (length p + 1) 0)) \<and>
        length (fold ?g [0..<length p] (replicate (length p + 1) 0)) = length p + 1"
  proof (intro foldE_fold [where I = "\<lambda>r. length r = length p + 1"])
    show "length (replicate (length p + 1) (0::int)) = length p + 1" by simp
  next
    fix x and s :: "int list"
    assume "x \<in> set [0..<length p]" "length s = length p + 1"
    then show "foldE (\<lambda>j res. bindE (gfMul (p ! x) ([1, e] ! j)) (xorAt res (x + j))) [0..<length [1, e]] s =
        Inr (?g x s) \<and> length (?g x s) = length p + 1"
      using inner [of x s] by simp
  qed
  moreover have "fold ?g [0..<length p] (replicate (length p + 1) 0) = genStep e p"
    using polyMul_outer_nth [OF assms, of "length p"] genStep_props(2) [OF assms]
    by (intro nth_equalityI) (simp_all add: genStep_nth)
  ultimately show ?thesis
    by (simp add: gfPolyMul_def)
qed

section \<open>The generator polynomial and the remainder\<close>

lemma foldE_single_fun: "foldE f [x] = f x"
  by (rule ext) (auto simp: bindE_def split: sum.splits)

lemma GenerateGeneratorPoly_Suc:
  "GenerateGeneratorPoly (Suc n) =
     bindE (GenerateGeneratorPoly n)
       (\<lambda>gen. bindE (tableGet expTable (int n)) (\<lambda>e. gfPolyMul gen [1, e]))"
  by (simp add: GenerateGeneratorPoly_def foldE_append foldE_single_fun)

lemma GenerateGeneratorPoly_succeeds:
  "n \<le> 255 \<Longrightarrow> succeeds (isGenerator n) (GenerateGeneratorPoly n)"
proof (induction n)
  case 0
  then show ?case
    by (simp add: GenerateGeneratorPoly_def isGenerator_def)
next
  case (Suc n)
  then have n: "n < 255" by simp
  have e: "tableGet expTable (int n) = Inr (expTable ! n)"
    using n by (simp add: tableGet_exp)
  have en: "inF (expTable ! n)" using inF_exp [OF n] .
  have "\<And>gen. isGenerator n gen \<Longrightarrow> isGenerator (Suc n) (genStep (expTable ! n) gen)"
  proof -
    fix gen assume g: "isGenerator n gen"
    then have lf: "listF gen" and len: "length gen = n + 1" and hd: "gen ! 0 = 1"
      and roots: "\<And>j. j < n \<Longrightarrow> evalP gen (expTable ! j) = 0"
      by (simp_all add: isGenerator_def)
    have ne: "gen \<noteq> []" using len by auto
    have "\<And>j. j < Suc n \<Longrightarrow> evalP (genStep (expTable ! n) gen) (expTable ! j) = 0"
    proof -
      fix j assume j: "j < Suc n"
      then have ej: "inF (expTable ! j)" using n by (intro inF_exp) simp
      show "evalP (genStep (expTable ! n) gen) (expTable ! j) = 0"
      proof (cases "j = n")
        case True
        then show ?thesis by (simp add: evalP_genStep [OF lf en en])
      next
        case False
        then show ?thesis
          using j roots [of j] by (simp add: evalP_genStep [OF lf en ej])
      qed
    qed
    then show "isGenerator (Suc n) (genStep (expTable ! n) gen)"
      using genStep_props [OF lf en] genStep_head [OF ne] hd len
      by (simp add: isGenerator_def)
  qed
  then have "\<And>gen. isGenerator n gen \<Longrightarrow>
      succeeds (isGenerator (Suc n)) (bindE (tableGet expTable (int n)) (\<lambda>e. gfPolyMul gen [1, e]))"
    using en by (simp add: e bindE_def gfPolyMul_linear isGenerator_def)
  then show ?case
    unfolding GenerateGeneratorPoly_Suc
    using Suc.IH n by (intro succeeds_bindE [where J = "isGenerator n"]) simp_all
qed

subsection \<open>The division loop\<close>

lemma divStep_eq:
  assumes "listF g" "listF r" "i + length g \<le> length r"
  shows "divStep g i r =
     Inr (if r ! i \<noteq> 0 then map2 (XOR) r (shifted i (map (\<lambda>c. mulP c (r ! i)) g) (length r)) else r)"
proof (cases "r ! i = 0")
  case True
  then show ?thesis by (simp add: divStep_def)
next
  case False
  have i: "g \<noteq> [] \<Longrightarrow> i < length r" using assms(3) by (cases g) auto
  have c: "g \<noteq> [] \<Longrightarrow> inF (r ! i)" using assms(2) i by (simp add: listF_nth)
  have "\<And>j. j < length (map (\<lambda>c. mulP c (r ! i)) g) \<Longrightarrow>
      gfMul (g ! j) (r ! i) = Inr (map (\<lambda>c. mulP c (r ! i)) g ! j)"
  proof -
    fix j assume j: "j < length (map (\<lambda>c. mulP c (r ! i)) g)"
    then have "g \<noteq> []" by auto
    then show "gfMul (g ! j) (r ! i) = Inr (map (\<lambda>c. mulP c (r ! i)) g ! j)"
      using j c assms(1) by (simp add: gfMul_eq listF_nth)
  qed
  then have "foldE (\<lambda>j rem. bindE (gfMul (g ! j) (r ! i)) (xorAt rem (i + j)))
        [0..<length (map (\<lambda>c. mulP c (r ! i)) g)] r =
      Inr (map2 (XOR) r (shifted i (map (\<lambda>c. mulP c (r ! i)) g) (length r)))"
    using assms(3) by (intro foldE_xor_run) simp_all
  then show ?thesis
    using False by (simp add: divStep_def Let_def)
qed

text \<open>The state of the division after \<open>i\<close> steps.\<close>

lemma divStep_inv:
  assumes g: "isGenerator n g" and x: "inF x" "evalP g x = 0"
    and inv: "divInv data n x v i r" and i: "i < length data"
  shows "succeeds (divInv data n x v (Suc i)) (divStep g i r)"
proof -
  have lf: "listF g" and len: "length g = n + 1" and hd: "g ! 0 = 1"
    using g by (simp_all add: isGenerator_def)
  have r: "listF r" "length r = length data + n" "\<And>t. t < i \<Longrightarrow> r ! t = 0" "evalP r x = v"
    using inv by (simp_all add: divInv_def)
  have fit: "i + length g \<le> length r" using i len r(2) by simp
  have ir: "i < length r" using i r(2) by simp
  have c: "inF (r ! i)" using r(1) ir by (rule listF_nth)
  show ?thesis
  proof (cases "r ! i = 0")
    case True
    then have "divInv data n x v (Suc i) r"
      using r by (auto simp: divInv_def less_Suc_eq)
    then show ?thesis
      using True by (simp add: divStep_eq [OF lf r(1) fit])
  next
    case False
    define vs where "vs = map (\<lambda>c. mulP c (r ! i)) g"
    define r' where "r' = map2 (XOR) r (shifted i vs (length r))"
    have vs: "listF vs" "length vs = n + 1" "vs ! 0 = r ! i"
      using lf c len hd by (simp_all add: vs_def listF_map_mulP)
    have fit': "i + length vs \<le> length r" using fit by (simp add: vs_def)
    have ls: "length (shifted i vs (length r)) = length r" using fit' by (rule length_shifted)
    have lr': "length r' = length r" by (simp add: r'_def ls)
    have nth: "\<And>t. t < length r \<Longrightarrow> r' ! t = r ! t XOR shifted i vs (length r) ! t"
      by (simp add: r'_def ls)
    have z: "\<And>t. t < Suc i \<Longrightarrow> r' ! t = 0"
    proof -
      fix t assume t: "t < Suc i"
      then have tl: "t < length r" using ir by simp
      show "r' ! t = 0"
      proof (cases "t = i")
        case True
        have "r' ! i = r ! i XOR vs ! 0"
          using nth [OF ir] shifted_nth [OF fit' ir] vs(2) by simp
        then show ?thesis using True vs(3) by simp
      next
        case False
        then have "t < i" using t by simp
        then show ?thesis
          using r(3) [of t] by (simp add: nth [OF tl] shifted_nth [OF fit' tl])
      qed
    qed
    have "evalP vs x = 0"
      using evalP_scale [OF c x(1) lf] x(2) by (simp add: vs_def)
    then have "evalP (shifted i vs (length r)) x = 0"
      by (simp add: shifted_def evalP_zeros_append evalP_append_zeros)
    then have "evalP r' x = v"
      using evalP_map2 [of r "shifted i vs (length r)" x] ls x(1) r(1,4) vs(1)
      by (simp add: r'_def listF_shifted)
    moreover have "listF r'"
      using r(1) vs(1) by (simp add: r'_def listF_map2 listF_shifted)
    ultimately have "divInv data n x v (Suc i) r'"
      using z lr' r(2) by (simp add: divInv_def)
    then show ?thesis
      using False by (simp add: divStep_eq [OF lf r(1) fit] r'_def vs_def)
  qed
qed

lemma division_inv:
  assumes g: "isGenerator n g" and x: "inF x" "evalP g x = 0"
  shows "m \<le> length data \<Longrightarrow> divInv data n x v 0 r \<Longrightarrow>
     succeeds (divInv data n x v m) (foldE (divStep g) [0..<m] r)"
proof (induction m)
  case 0
  then show ?case by simp
next
  case (Suc m)
  then have m: "m < length data" by simp
  have "succeeds (divInv data n x v m) (foldE (divStep g) [0..<m] r)"
    using Suc by simp
  then show ?case
    using divStep_inv [OF g x _ m]
    by (simp add: foldE_append foldE_single_fun) (rule succeeds_bindE)
qed

section \<open>Syndromes of an encoded block\<close>

lemma gfPolyEval_from:
  "inF x \<Longrightarrow> listF p \<Longrightarrow> inF a \<Longrightarrow>
   foldE (\<lambda>c acc. bindE (gfMul acc x) (\<lambda>m. Inr (gfAdd m c))) p a = Inr (evalFrom a p x)"
proof (induction p arbitrary: a)
  case Nil
  then show ?case by simp
next
  case (Cons c p)
  have "inF (mulP a x XOR c)" using Cons.prems by (simp add: mulP_inF xor_inF)
  then show ?case
    using Cons by (simp add: gfMul_eq bindE_def gfAdd_def)
qed

lemma gfPolyEval_eq: "inF x \<Longrightarrow> listF p \<Longrightarrow> gfPolyEval p x = Inr (evalP p x)"
  by (simp add: gfPolyEval_def evalP_def gfPolyEval_from)

lemma map2_xor_zeros_right: "map2 (XOR) xs (replicate (length xs) 0) = (xs :: int list)"
  by (induction xs) simp_all

lemma map2_xor_zeros_left: "map2 (XOR) (replicate (length xs) 0) xs = (xs :: int list)"
  by (induction xs) simp_all

lemma zeros_prefix:
  assumes "\<forall>t < k. r ! t = (0::int)" "k \<le> length r"
  shows "r = replicate k 0 @ drop k r"
proof -
  have "take k r = replicate k 0"
    using assms by (intro nth_equalityI) simp_all
  then show ?thesis
    using append_take_drop_id [of k r] by simp
qed

lemma CalculateECCodewords_correct:
  assumes data: "listF data" and n: "1 \<le> n" "n \<le> 255"
  shows "\<exists>ec. CalculateECCodewords data n = Inr ec \<and> length ec = n \<and> listF ec \<and>
           (\<forall>j < n. evalP (data @ ec) (expTable ! j) = 0)"
proof -
  obtain g where g: "GenerateGeneratorPoly n = Inr g" "isGenerator n g"
    using GenerateGeneratorPoly_succeeds [OF n(2)] by (auto dest!: succeedsD)
  let ?r0 = "data @ replicate n 0"
  let ?k = "length data"
  have inv0: "\<And>x. divInv data n x (evalP ?r0 x) 0 ?r0"
    using data by (simp add: divInv_def)
  have roots: "\<And>j. j < n \<Longrightarrow> inF (expTable ! j) \<and> evalP g (expTable ! j) = 0"
    using g(2) n(2) by (simp add: isGenerator_def inF_exp)
  have all: "\<And>j. j < n \<Longrightarrow>
      succeeds (divInv data n (expTable ! j) (evalP ?r0 (expTable ! j)) ?k) (foldE (divStep g) [0..<?k] ?r0)"
    using roots by (intro division_inv [OF g(2)] inv0) simp_all
  have "0 < n" using n(1) by simp
  from all [OF this] obtain r where r: "foldE (divStep g) [0..<?k] ?r0 = Inr r"
    by (auto dest!: succeedsD)
  have inv: "\<And>j. j < n \<Longrightarrow> divInv data n (expTable ! j) (evalP ?r0 (expTable ! j)) ?k r"
    using all by (simp add: r)
  have r0: "listF r" "length r = ?k + n" "\<forall>t < ?k. r ! t = 0"
    using inv [OF \<open>0 < n\<close>] by (simp_all add: divInv_def)
  define ec where "ec = drop ?k r"
  have split: "r = replicate ?k 0 @ ec"
    using zeros_prefix [OF r0(3)] r0(2) by (simp add: ec_def)
  have ec: "length ec = n" "listF ec"
    using r0(1,2) by (auto simp: ec_def listF_def dest: in_set_dropD)
  have xor: "data @ ec = map2 (XOR) ?r0 r"
    using ec(1) map2_xor_zeros_right [of data] map2_xor_zeros_left [of ec]
    by (subst split) simp
  have "\<And>j. j < n \<Longrightarrow> evalP (data @ ec) (expTable ! j) = 0"
  proof -
    fix j assume j: "j < n"
    have "evalP r (expTable ! j) = evalP ?r0 (expTable ! j)"
      using inv [OF j] by (simp add: divInv_def)
    moreover have "evalP (map2 (XOR) ?r0 r) (expTable ! j) =
        evalP ?r0 (expTable ! j) XOR evalP r (expTable ! j)"
      using roots [OF j] data r0(1,2) by (intro evalP_map2) simp_all
    ultimately show "evalP (data @ ec) (expTable ! j) = 0"
      by (simp add: xor)
  qed
  moreover have "CalculateECCodewords data n = Inr ec"
    by (simp add: CalculateECCodewords_def g(1) r bindE_def ec_def)
  ultimately show ?thesis
    using ec by blast
qed

section \<open>The encoder returns a symbol whenever a version is found\<close>

lemma byteAt_fold_range:
  "(\<forall>j \<in> set js. j < 8) \<Longrightarrow> 0 \<le> v \<Longrightarrow> v < 2 ^ 8 \<Longrightarrow>
   0 \<le> fold (\<lambda>j val. if P j then val OR push_bit (7 - j) 1 else val) js v \<and>
   fold (\<lambda>j val. if P j then val OR push_bit (7 - j) 1 else val) js (v::int) < 2 ^ 8"
proof (induction js arbitrary: v)
  case Nil
  then show ?case by simp
next
  case (Cons j js)
  let ?w = "if P j then v OR push_bit (7 - j) 1 else v"
  have "(2::int) ^ (7 - j) \<le> 2 ^ 7"
    by (intro power_increasing) simp_all
  then have p: "push_bit (7 - j) (1::int) < 2 ^ 8"
    by (simp add: push_bit_of_1)
  have "v OR push_bit (7 - j) 1 < 2 ^ 8"
    using OR_upper [of v 8 "push_bit (7 - j) 1"] Cons.prems(2,3) p by blast
  moreover have "0 \<le> v OR push_bit (7 - j) 1"
    using Cons.prems(2) by simp
  ultimately have w: "0 \<le> ?w" "?w < 2 ^ 8"
    using Cons.prems(2,3) by (simp_all only: if_split) auto
  have js: "\<forall>j \<in> set js. j < 8" using Cons.prems(1) by simp
  show ?case
    using Cons.IH [OF js w] by (simp only: fold_simps)
qed

lemma byteAt_inF: "inF (byteAt bits i)"
  using byteAt_fold_range [of "[0..<8]" 0 "\<lambda>j. i + j < length bits \<and> bits ! (i + j)"]
  by (simp add: byteAt_def inF_def)

lemma listF_bitsToCodewords: "listF (bitsToCodewords bits)"
  by (simp add: bitsToCodewords_def listF_def byteAt_inF)

lemma versionLookup_unknown_level:
  assumes "level \<notin> {LevelL, LevelM, LevelQ, LevelH}"
  shows "versionLookup ver level = zeroVersionInfo \<or> versionTable ver = None"
  using assms
  by (auto simp: versionLookup_def versionTable_def LevelL_def LevelM_def LevelQ_def LevelH_def
        split: option.splits if_splits)

lemma versionFits_ec_range:
  assumes "versionFits n level v" "v \<in> {1, 2, 3, 4}"
  shows "1 \<le> ECCodewords (versionLookup v level) \<and> ECCodewords (versionLookup v level) \<le> 255"
proof (cases "level \<in> {LevelL, LevelM, LevelQ, LevelH}")
  case True
  then show ?thesis
    using assms(2) by (auto simp: versionLookup_simps)
next
  case False
  have "versionLookup v level = zeroVersionInfo"
    using versionLookup_unknown_level [OF False, of v]
    by (auto simp: versionLookup_def)
  then show ?thesis
    using assms(1) by (simp add: versionFits_def dataCapacity_def zeroVersionInfo_def)
qed

lemma buildSymbol_succeeds:
  assumes "v \<in> {1, 2, 3, 4}" "1 \<le> ECCodewords vInfo" "ECCodewords vInfo \<le> 255"
  shows "succeeds (symbolOK v level) (buildSymbol data level v vInfo)"
proof -
  define sz where "sz = 21 + 4 * (v - 1)"
  have sz: "21 \<le> sz" using assms(1) by (auto simp: sz_def)
  define cws where "cws = bitsToCodewords (encodeData data vInfo)"
  have n: "1 \<le> nat (ECCodewords vInfo)" "nat (ECCodewords vInfo) \<le> 255"
    using assms(2,3) by simp_all
  have "listF cws" by (simp add: cws_def listF_bitsToCodewords)
  then obtain ec where ec: "CalculateECCodewords cws (nat (ECCodewords vInfo)) = Inr ec"
    using CalculateECCodewords_correct [OF _ n] by blast
  have 1: "succeeds (layoutOK sz) (functionPatterns sz v (emptyLayout sz))"
    using sz assms(1) by (intro functionPatterns_succeeds emptyLayout_OK) (simp_all add: sz_def)
  have 2: "\<And>lay. layoutOK sz lay \<Longrightarrow>
      succeeds (placeOK sz) (placeColumns (cws @ ec) sz (sz - 1) (lay, 0))"
    by (intro placeColumns_succeeds) (simp_all add: placeOK_def)
  have 3: "\<And>st. placeOK sz st \<Longrightarrow>
      succeeds (symbolOK v level)
        (case st of (lay, idx) \<Rightarrow>
           bindE (writeFormatInfo sz level lay) (\<lambda>lay.
             Inr \<lparr>Version = v, Level = level, Size = sz, Modules = modules lay\<rparr>))"
  proof -
    fix st assume "placeOK sz st"
    then obtain lay idx where st: "st = (lay, idx)" "layoutOK sz lay"
      by (cases st) (simp add: placeOK_def)
    have "succeeds (darkCellIs sz (bit (formatPolyOf level) 8)) (writeFormatInfo sz level lay)"
      using st(2) sz by (rule writeFormatInfo_succeeds)
    then show "succeeds (symbolOK v level)
        (case st of (lay, idx) \<Rightarrow>
           bindE (writeFormatInfo sz level lay) (\<lambda>lay.
             Inr \<lparr>Version = v, Level = level, Size = sz, Modules = modules lay\<rparr>))"
      unfolding st(1) prod.case
      by (rule succeeds_bindE) (simp add: symbolOK_def darkCellIs_def layoutOK_def sz_def)
  qed
  have "buildSymbol data level v vInfo =
      bindE (functionPatterns sz v (emptyLayout sz)) (\<lambda>lay.
      bindE (placeColumns (cws @ ec) sz (sz - 1) (lay, 0)) (\<lambda>st. case st of (lay, idx) \<Rightarrow>
      bindE (writeFormatInfo sz level lay) (\<lambda>lay.
      Inr \<lparr>Version = v, Level = level, Size = sz, Modules = modules lay\<rparr>)))"
    by (simp only: buildSymbol_def Let_def cws_def [symmetric] sz_def [symmetric] ec bindE_def
          sum.case)
  then show ?thesis
    using 1 2 3
    by (simp only:) (intro succeeds_bindE [where J = "layoutOK sz"] succeeds_bindE [where J = "placeOK sz"])
qed

lemma NewQRCode_succeeds:
  assumes "findVersion [1, 2, 3, 4] (length content) level = Some (v, vInfo)"
  shows "succeeds (symbolOK v level) (NewQRCode content level)"
proof -
  have v: "v \<in> {1, 2, 3, 4}" "vInfo = versionLookup v level" "versionFits (length content) level v"
    using findVersion_Some [OF assms] by simp_all
  have "succeeds (symbolOK v level) (buildSymbol (contentBytes content) level v vInfo)"
    using versionFits_ec_range [OF v(3,1)] v(1,2) by (intro buildSymbol_succeeds) simp_all
  then show ?thesis
    using assms by (auto simp: NewQRCode_def contentBytes_def dest!: succeedsD)
qed

section \<open>Claims about the Galois field\<close>

text \<open>
  Claim C10. After \<^verbatim>\<open>init\<close>, for every \<open>i\<close> in 0..254 the entry \<open>expTable[i]\<close> lies in
  1..255 and \<open>logTable[expTable[i]] = i\<close>; the 255 entries \<open>expTable[0..254]\<close> are pairwise
  distinct and are exactly the nonzero field elements 1..255. The tables are the values
  \<^verbatim>\<open>init\<close> leaves behind: every other function of the package only reads them.
\<close>

theorem exp_log_table_invariant:
  "length expTable = 256 \<and> length logTable = 256 \<and>
   (\<forall>i < 255. 1 \<le> expTable ! i \<and> expTable ! i \<le> 255 \<and> logTable ! nat (expTable ! i) = int i) \<and>
   distinct (take 255 expTable) \<and>
   set (take 255 expTable) = {1..255}"
proof -
  have sub: "set (take 255 expTable) \<subseteq> {1..255}"
  proof
    fix v assume "v \<in> set (take 255 expTable)"
    then obtain i where "i < 255" "v = expTable ! i"
      by (auto simp: in_set_conv_nth length_expTable)
    then show "v \<in> {1..255}" using exp_entry by simp
  qed
  have "card (set (take 255 expTable)) = 255"
    using distinct_card [OF exp_distinct] by (simp add: length_expTable)
  then have "set (take 255 expTable) = {1..255}"
    using sub by (intro card_subset_eq) simp_all
  then show ?thesis
    using exp_entry exp_distinct length_expTable length_logTable by simp
qed

theorem exp_log_table_invariant_witness:
  "(7::nat) < 255 \<and> expTable ! 7 = 128 \<and> logTable ! nat 128 = 7"
proof -
  have e: "expTable ! 7 = 128" by code_simp
  have "\<forall>i < 255. logTable ! nat (expTable ! i) = int i"
    using exp_log_table_invariant by blast
  then have "logTable ! nat (expTable ! 7) = int 7" by simp
  then show ?thesis using e by simp
qed

text \<open>
  Claim C7. \<^verbatim>\<open>gfDiv(x, y)\<close> fails with the division-by-zero panic exactly when \<open>y = 0\<close>;
  for \<open>x\<close> in 0..255 and \<open>y\<close> in 1..255 it returns a quotient \<open>q\<close> with
  \<open>gfMul(q, y) = x\<close>.
\<close>

theorem gfDiv_inverse_of_gfMul:
  "(gfDiv x y = Inl DivideByZero \<longleftrightarrow> y = 0) \<and>
   (0 \<le> x \<and> x \<le> 255 \<and> 1 \<le> y \<and> y \<le> 255 \<longrightarrow>
      (\<exists>q. gfDiv x y = Inr q \<and> 0 \<le> q \<and> q \<le> 255 \<and> gfMul q y = Inr x))"
proof (intro conjI impI)
  show "gfDiv x y = Inl DivideByZero \<longleftrightarrow> y = 0"
    using gfDiv_not_DivideByZero [of y x] by (auto simp: gfDiv_def)
next
  assume a: "0 \<le> x \<and> x \<le> 255 \<and> 1 \<le> y \<and> y \<le> 255"
  show "\<exists>q. gfDiv x y = Inr q \<and> 0 \<le> q \<and> q \<le> 255 \<and> gfMul q y = Inr x"
  proof (cases "x = 0")
    case True
    then show ?thesis using a by (simp add: gfDiv_def gfMul_def)
  next
    case False
    with a have x: "1 \<le> x" "x \<le> 255" and y: "1 \<le> y" "y \<le> 255" by simp_all
    define lx where "lx = logTable ! nat x"
    define ly where "ly = logTable ! nat y"
    define k where "k = (lx + 255 - ly) mod 255"
    define q where "q = expTable ! nat k"
    have lx: "0 \<le> lx" "lx < 255" "expTable ! nat lx = x"
      using log_entry [OF x] by (simp_all add: lx_def)
    have ly: "0 \<le> ly" "ly < 255"
      using log_entry [OF y] by (simp_all add: ly_def)
    have k: "0 \<le> k" "k < 255" by (simp_all add: k_def)
    then have nk: "nat k < 255" by simp
    have q: "1 \<le> q" "q \<le> 255" "logTable ! nat q = k"
      using exp_entry [OF nk] k by (simp_all add: q_def)
    have d: "gfDiv x y = Inr q"
      using gfDiv_nonzero [OF x y] by (simp add: q_def k_def lx_def ly_def)
    have "(k + ly) mod 255 = (lx + 255) mod 255"
      unfolding k_def by (simp add: mod_add_left_eq)
    also have "\<dots> = lx" using lx by simp
    finally have "(k + ly) mod 255 = lx" .
    then have "gfMul q y = Inr x"
      using gfMul_nonzero [OF q(1,2) y] q(3) lx(3) by (simp add: ly_def)
    moreover have "0 \<le> q" using q by simp
    ultimately show ?thesis using d q by blast
  qed
qed

theorem gfDiv_inverse_of_gfMul_witness:
  "(0::int) \<le> 87 \<and> (87::int) \<le> 255 \<and> (1::int) \<le> 19 \<and> (19::int) \<le> 255 \<and>
   (\<exists>q. gfDiv 87 19 = Inr q \<and> 0 \<le> q \<and> q \<le> 255 \<and> gfMul q 19 = Inr 87) \<and>
   (gfDiv 87 0 = Inl DivideByZero)"
  using gfDiv_inverse_of_gfMul [of 87 19] gfDiv_inverse_of_gfMul [of 87 0] by simp

section \<open>Claim about the format information\<close>

lemma bch_format_all:
  "list_all (\<lambda>f. 0 \<le> calculateBCHFormat f XOR 0x5412 \<and>
      calculateBCHFormat f XOR 0x5412 < 2 ^ 15 \<and>
      drop_bit 10 (calculateBCHFormat f XOR 0x5412) = f \<and>
      gf2_rem15 (calculateBCHFormat f XOR 0x5412) 0x537 = 0 \<and>
      bch_codeword 0x537 (calculateBCHFormat f XOR 0x5412)) [0..31]"
  by code_simp

text \<open>
  Claim C6. For every 5-bit \<open>formatData\<close> in 0..31, \<open>calculateBCHFormat formatData XOR 0x5412\<close>
  is a 15-bit word whose high 5 bits are \<open>formatData\<close> and which leaves remainder 0 in the
  GF(2) polynomial division by the generator 0x537: it is the product of the generator
  and a polynomial of degree below 5, a codeword of the (15,5) BCH code.
\<close>

theorem calculateBCHFormat_valid_codeword:
  assumes "0 \<le> formatData" and "formatData \<le> 31"
  shows "0 \<le> calculateBCHFormat formatData XOR 0x5412 \<and>
      calculateBCHFormat formatData XOR 0x5412 < 2 ^ 15 \<and>
      drop_bit 10 (calculateBCHFormat formatData XOR 0x5412) = formatData \<and>
      gf2_rem15 (calculateBCHFormat formatData XOR 0x5412) 0x537 = 0 \<and>
      bch_codeword 0x537 (calculateBCHFormat formatData XOR 0x5412)"
proof -
  have "formatData \<in> set [0..31]" using assms by simp
  then show ?thesis
    using bch_format_all unfolding list_all_iff by blast
qed

theorem calculateBCHFormat_valid_codeword_witness:
  "(0::int) \<le> 8 \<and> (8::int) \<le> 31 \<and> calculateBCHFormat 8 = 0x77C4 \<and>
   drop_bit 10 (calculateBCHFormat 8 XOR 0x5412) = 8 \<and>
   gf2_rem15 (calculateBCHFormat 8 XOR 0x5412) 0x537 = 0 \<and>
   bch_codeword 0x537 (calculateBCHFormat 8 XOR 0x5412)"
proof -
  have "calculateBCHFormat 8 = 0x77C4" by code_simp
  then show ?thesis
    using calculateBCHFormat_valid_codeword [of 8] by auto
qed

section \<open>Claim about the Reed--Solomon encoder\<close>

text \<open>
  Claim C1. For every sequence of data codewords (each 0..255) and every number of
  error-correction codewords \<open>ecLen\<close> in 2..68, \<^verbatim>\<open>CalculateECCodewords\<close> returns \<open>ecLen\<close>
  codewords, and the block \<open>data @ ec\<close>, read as a polynomial over GF(256), evaluates
  to 0 at each root \<open>expTable[i]\<close>, \<open>i < ecLen\<close>: all syndromes are zero, so the error-free
  branch of the decoder returns \<open>data\<close> unchanged.
\<close>

theorem rs_encode_systematic_zero_syndromes:
  assumes "\<forall>c \<in> set data. 0 \<le> c \<and> c \<le> 255" and "2 \<le> ecLen" and "ecLen \<le> 68"
  shows "\<exists>ec. CalculateECCodewords data ecLen = Inr ec \<and> length ec = ecLen \<and>
           (\<forall>c \<in> set ec. 0 \<le> c \<and> c \<le> 255) \<and>
           (\<forall>i < ecLen. gfPolyEval (data @ ec) (expTable ! i) = Inr 0) \<and>
           rsDecodeErrorFree (data @ ec) ecLen = Some data"
proof -
  have d: "listF data" using assms(1) by (simp add: listF_def inF_def)
  obtain ec where ec: "CalculateECCodewords data ecLen = Inr ec" "length ec = ecLen" "listF ec"
      "\<And>j. j < ecLen \<Longrightarrow> evalP (data @ ec) (expTable ! j) = 0"
    using CalculateECCodewords_correct [OF d, of ecLen] assms(2,3) by auto
  have s: "\<And>i. i < ecLen \<Longrightarrow> gfPolyEval (data @ ec) (expTable ! i) = Inr 0"
    using ec(3,4) d assms(3) by (simp add: gfPolyEval_eq inF_exp)
  then have "rsDecodeErrorFree (data @ ec) ecLen = Some data"
    using ec(2) by (simp add: rsDecodeErrorFree_def syndrome_def list_all_iff)
  then show ?thesis
    using ec(1,2,3) s by (auto simp: listF_def inF_def)
qed

theorem rs_encode_systematic_zero_syndromes_witness:
  "(2::nat) \<le> 10 \<and> (10::nat) \<le> 68 \<and>
   CalculateECCodewords [32, 91, 11, 120, 209, 114, 220, 77, 67, 64, 236, 17, 236, 17, 236, 17] 10 =
     Inr [196, 35, 39, 119, 235, 215, 231, 226, 93, 23] \<and>
   gfPolyEval ([32, 91, 11, 120, 209, 114, 220, 77, 67, 64, 236, 17, 236, 17, 236, 17] @
               [196, 35, 39, 119, 235, 215, 231, 226, 93, 23]) (expTable ! 9) = Inr 0 \<and>
   rsDecodeErrorFree ([32, 91, 11, 120, 209, 114, 220, 77, 67, 64, 236, 17, 236, 17, 236, 17] @
                      [196, 35, 39, 119, 235, 215, 231, 226, 93, 23]) 10 =
     Some [32, 91, 11, 120, 209, 114, 220, 77, 67, 64, 236, 17, 236, 17, 236, 17]"
proof -
  have e: "CalculateECCodewords [32, 91, 11, 120, 209, 114, 220, 77, 67, 64, 236, 17, 236, 17, 236, 17] 10 =
     Inr [196, 35, 39, 119, 235, 215, 231, 226, 93, 23]"
    by code_simp
  show ?thesis
    using rs_encode_systematic_zero_syndromes
      [of "[32, 91, 11, 120, 209, 114, 220, 77, 67, 64, 236, 17, 236, 17, 236, 17]" 10]
    by (auto simp: e)
qed

section \<open>Claims about the encoder\<close>

lemma NewQRCode_chosen:
  assumes "NewQRCode content level = Inr qr"
  shows "findVersion [1, 2, 3, 4] (length content) level =
           Some (Version qr, versionLookup (Version qr) level)"
proof -
  obtain v vInfo where f: "findVersion [1, 2, 3, 4] (length content) level = Some (v, vInfo)"
      and b: "buildSymbol (contentBytes content) level v vInfo = Inr qr"
    using NewQRCode_Inr [OF assms] by blast
  show ?thesis
    using findVersion_Some(2) [OF f] buildSymbol_fields(1) [OF b] f by simp
qed

lemma NewQRCode_exists:
  assumes "findVersion [1, 2, 3, 4] (length content) level = Some (v, vInfo)"
  shows "\<exists>qr. NewQRCode content level = Inr qr \<and> symbolOK v level qr"
  using NewQRCode_succeeds [OF assms] by (rule succeedsD)

lemma smaller_versions_lack_capacity:
  assumes "level \<in> {LevelL, LevelM, LevelQ, LevelH}"
    and "findVersion [1, 2, 3, 4] n level = Some (v, vInfo)" and "1 \<le> ver" and "ver < v"
  shows "dataCapacity (versionLookup ver level) < 4 + 8 + int n * 8"
proof -
  have v: "v \<in> {1, 2, 3, 4}" "versionFits n level v"
    "\<forall>ver. 1 \<le> ver \<and> ver < v \<longrightarrow> \<not> versionFits n level ver"
    using findVersion_Some [OF assms(2)] by simp_all
  have "\<not> Blocks (versionLookup ver level) > 1"
    using versionLookup_blocks [OF assms(1,3,4)] v(1,2) by (auto simp: versionFits_def)
  then show ?thesis
    using v(3) assms(3,4) by (auto simp: versionFits_def)
qed

lemma versionFits_with_terminator:
  "versionFits n level ver \<longleftrightarrow>
     Blocks (versionLookup ver level) \<le> 1 \<and>
     4 + 8 + int n * 8 + 4 \<le> dataCapacity (versionLookup ver level)"
  unfolding versionFits_def dataCapacity_def by presburger

text \<open>
  Claim C2, as the code has it. \<^verbatim>\<open>NewQRCode\<close> scans the versions 1..4 in ascending order,
  passes over a table entry with more than one block, and takes the first version whose
  data capacity \<open>(TotalCodewords - ECCodewords) * 8\<close> holds the mode indicator, the count
  and the payload, \<open>4 + 8 + 8 * len\<close> bits; a capacity is a multiple of 8, so the test
  is the same with the 4 bits of the terminator counted. It returns its error exactly
  when no version 1..4 passes this test, and a symbol of the first passing version
  otherwise; at the four levels L, M, Q, H no smaller version has the capacity.
\<close>

theorem version_selection_first_single_block:
  "(\<forall>ver. versionFits (length content) level ver \<longleftrightarrow>
      Blocks (versionLookup ver level) \<le> 1 \<and>
      4 + 8 + int (length content) * 8 + 4 \<le> dataCapacity (versionLookup ver level)) \<and>
   (NewQRCode content level = Inl ContentTooLong \<longleftrightarrow>
      (\<forall>ver \<in> {1, 2, 3, 4}. \<not> versionFits (length content) level ver)) \<and>
   ((\<exists>ver \<in> {1, 2, 3, 4}. versionFits (length content) level ver) \<longrightarrow>
      (\<exists>qr. NewQRCode content level = Inr qr \<and> Version qr \<in> {1, 2, 3, 4} \<and>
         versionFits (length content) level (Version qr) \<and>
         (\<forall>ver. 1 \<le> ver \<and> ver < Version qr \<longrightarrow> \<not> versionFits (length content) level ver) \<and>
         (level \<in> {LevelL, LevelM, LevelQ, LevelH} \<longrightarrow>
            (\<forall>ver. 1 \<le> ver \<and> ver < Version qr \<longrightarrow>
               dataCapacity (versionLookup ver level) < 4 + 8 + int (length content) * 8))))"
proof (intro conjI impI)
  show "\<forall>ver. versionFits (length content) level ver \<longleftrightarrow>
      Blocks (versionLookup ver level) \<le> 1 \<and>
      4 + 8 + int (length content) * 8 + 4 \<le> dataCapacity (versionLookup ver level)"
    using versionFits_with_terminator by blast
next
  show "NewQRCode content level = Inl ContentTooLong \<longleftrightarrow>
      (\<forall>ver \<in> {1, 2, 3, 4}. \<not> versionFits (length content) level ver)"
    by (simp only: NewQRCode_ContentTooLong findVersion_None)
next
  assume "\<exists>ver \<in> {1, 2, 3, 4}. versionFits (length content) level ver"
  then have "findVersion [1, 2, 3, 4] (length content) level \<noteq> None"
    by (simp only: findVersion_None) blast
  then obtain v vInfo where f: "findVersion [1, 2, 3, 4] (length content) level = Some (v, vInfo)"
    by auto
  obtain qr where qr: "NewQRCode content level = Inr qr" "Version qr = v"
    using NewQRCode_exists [OF f] by (auto simp: symbolOK_def)
  show "\<exists>qr. NewQRCode content level = Inr qr \<and> Version qr \<in> {1, 2, 3, 4} \<and>
         versionFits (length content) level (Version qr) \<and>
         (\<forall>ver. 1 \<le> ver \<and> ver < Version qr \<longrightarrow> \<not> versionFits (length content) level ver) \<and>
         (level \<in> {LevelL, LevelM, LevelQ, LevelH} \<longrightarrow>
            (\<forall>ver. 1 \<le> ver \<and> ver < Version qr \<longrightarrow>
               dataCapacity (versionLookup ver level) < 4 + 8 + int (length content) * 8))"
    using qr findVersion_Some [OF f] smaller_versions_lack_capacity [OF _ f]
    by (intro exI [of _ qr]) simp
qed

lemma versionFits_hello: "versionFits 11 LevelL 1"
  by (simp add: versionFits_def versionLookup_simps dataCapacity_def)

theorem version_selection_first_single_block_witness:
  "versionFits (length ''Hello World'') LevelL 1 \<and>
   (\<exists>qr. NewQRCode ''Hello World'' LevelL = Inr qr \<and> Version qr = 1)"
proof -
  have "length ''Hello World'' = 11" by code_simp
  then have f: "versionFits (length ''Hello World'') LevelL 1"
    using versionFits_hello by (simp only:)
  then have "\<exists>ver \<in> {1, 2, 3, 4}. versionFits (length ''Hello World'') LevelL ver"
    by blast
  then obtain qr where qr: "NewQRCode ''Hello World'' LevelL = Inr qr"
      "Version qr \<in> {1, 2, 3, 4}"
      "\<forall>ver. 1 \<le> ver \<and> ver < Version qr \<longrightarrow> \<not> versionFits (length ''Hello World'') LevelL ver"
    using version_selection_first_single_block [of "''Hello World''" LevelL] by blast
  have "\<not> 1 < Version qr" using qr(3) f by blast
  then have "Version qr = 1" using qr(2) by auto
  then show ?thesis using f qr(1) by blast
qed

text \<open>
  The claim as the spec states it fails: 50 bytes at level M fit version 4 of the table
  (512 bits hold the 416 bits of header, payload and terminator), yet \<^verbatim>\<open>NewQRCode\<close>
  passes over that entry, which has two blocks, and returns its error.
\<close>

theorem version_selection_counterexample:
  "NewQRCode (replicate 50 CHR ''A'') LevelM = Inl ContentTooLong \<and>
   4 + 8 + int (length (replicate 50 CHR ''A'')) * 8 + 4 \<le> dataCapacity (versionLookup 4 LevelM)"
proof -
  have "findVersion [1, 2, 3, 4] 50 LevelM = None"
    by (simp add: versionLookup_simps dataCapacity_def)
  then show ?thesis
    by (simp add: NewQRCode_ContentTooLong versionLookup_simps dataCapacity_def)
qed

text \<open>
  Claim C5. For every successful encode, with \<open>vInfo\<close> the table entry of the chosen
  version and level: the bit stream is the mode indicator 0100, the 8-bit count and the
  payload bytes, then the terminator (4 zero bits, fewer when the capacity ends first),
  then zero bits up to a byte boundary, then pad bytes alternating 0xEC, 0x11 from 0xEC;
  its length is exactly \<open>(TotalCodewords - ECCodewords) * 8\<close>.
\<close>

theorem padding_fills_data_capacity:
  assumes "NewQRCode content level = Inr qr"
  shows "\<exists>hdr term fill npad.
     hdr = [False, True, False, False] @ bits8 (int (length content)) @
             concat (map bits8 (contentBytes content)) \<and>
     term = min 4 (nat (dataCapacity (versionLookup (Version qr) level)) - length hdr) \<and>
     fill = (8 - (length hdr + term) mod 8) mod 8 \<and>
     encodeData (contentBytes content) (versionLookup (Version qr) level) =
       hdr @ replicate term False @ replicate fill False @ padSeq npad \<and>
     int (length (encodeData (contentBytes content) (versionLookup (Version qr) level))) =
       (TotalCodewords (versionLookup (Version qr) level) -
        ECCodewords (versionLookup (Version qr) level)) * 8"
proof -
  let ?data = "contentBytes content"
  let ?vInfo = "versionLookup (Version qr) level"
  have n: "length ?data = length content" by (simp add: contentBytes_def)
  have f: "findVersion [1, 2, 3, 4] (length ?data) level = Some (Version qr, ?vInfo)"
    using NewQRCode_chosen [OF assms] by (simp add: n)
  obtain k where k: "dataCapacity ?vInfo = 16 + 8 * int (length ?data) + 8 * int k"
    using dataCapacity_chosen [OF f] by blast
  have e: "encodeData ?data ?vInfo = headerBits ?data @ replicate 4 False @ padSeq k"
    using k by (rule encodeData_chosen)
  have t: "min 4 (nat (dataCapacity ?vInfo) - length (headerBits ?data)) = 4"
    using k by (simp add: length_headerBits)
  have a: "(8 - (length (headerBits ?data) + 4) mod 8) mod 8 = 0"
    by (simp add: length_headerBits)
  have l: "int (length (encodeData ?data ?vInfo)) = dataCapacity ?vInfo"
    by (simp add: e k length_headerBits length_padSeq)
  show ?thesis
    using e t a l
    by (intro exI [of _ "headerBits ?data"] exI [of _ 4] exI [of _ 0] exI [of _ k])
       (simp add: headerBits_eq n dataCapacity_def)
qed

theorem padding_fills_data_capacity_witness:
  "\<exists>qr. NewQRCode ''Hello World'' LevelL = Inr qr \<and> Version qr = 1 \<and>
     length (encodeData (contentBytes ''Hello World'') (versionLookup 1 LevelL)) = 152"
proof -
  have "findVersion [1, 2, 3, 4] (length ''Hello World'') LevelL =
      Some (1, versionLookup 1 LevelL)"
    by (simp add: versionLookup_simps dataCapacity_def)
  then obtain qr where qr: "NewQRCode ''Hello World'' LevelL = Inr qr" "Version qr = 1"
    using NewQRCode_exists by (fastforce simp: symbolOK_def)
  have "int (length (encodeData (contentBytes ''Hello World'') (versionLookup 1 LevelL))) = 152"
    using padding_fills_data_capacity [OF qr(1)] by (simp add: qr(2) versionLookup_simps)
  then show ?thesis using qr by auto
qed

lemma formatPoly_bit8:
  "bit (formatPolyOf LevelL) 8" "\<not> bit (formatPolyOf LevelM) 8"
  "bit (formatPolyOf LevelQ) 8" "\<not> bit (formatPolyOf LevelH) 8"
  by code_simp+

lemma dark_module_is_format_bit:
  assumes "NewQRCode content level = Inr qr"
  shows "Modules qr ! nat (Size qr - 8) ! 8 = bit (formatPolyOf level) 8"
proof -
  have "succeeds (symbolOK (Version qr) level) (Inr qr :: error + QRCode)"
    using NewQRCode_succeeds [OF NewQRCode_chosen [OF assms]] by (simp only: assms)
  then have "symbolOK (Version qr) level qr"
    by (simp only: succeeds_Inr)
  then show ?thesis
    unfolding symbolOK_def by blast
qed

text \<open>
  Claim C4, at an input where the code breaks it. The format loop writes bit 8 of the
  format word at \<open>(Size - 8 + (i - 8), 8)\<close> for \<open>i = 8\<close>, the cell of the dark module, and
  nothing writes that cell afterwards. At level M (and H) that bit is 0: the symbol of
  the content "A" at level M has a light module at \<open>(13, 8)\<close>.
\<close>

theorem dark_module_overwritten_at_level_M:
  "\<exists>qr. NewQRCode ''A'' LevelM = Inr qr \<and> Size qr = 21 \<and> nat (Size qr - 8) = 13 \<and>
     Modules qr ! 13 ! 8 = False"
proof -
  have "findVersion [1, 2, 3, 4] (length ''A'') LevelM = Some (1, versionLookup 1 LevelM)"
    by (simp add: versionLookup_simps dataCapacity_def)
  then obtain qr where qr: "NewQRCode ''A'' LevelM = Inr qr" "Size qr = 21"
    using NewQRCode_exists by (fastforce simp: symbolOK_def)
  have "Modules qr ! nat (Size qr - 8) ! 8 = False"
    using dark_module_is_format_bit [OF qr(1)] formatPoly_bit8 by simp
  then show ?thesis using qr by auto
qed

section \<open>Reading a symbol back\<close>


lemma foldE_append_fun: "foldE f (xs @ ys) = (\<lambda>s. bindE (foldE f xs s) (foldE f ys))"
  by (rule ext) (rule foldE_append)







lemma unmask0_twice [simp]: "unmask0 r c (unmask0 r c b) = b"
  by (simp add: unmask0_def)

















lemma version3_layout:
  "(case functionPatterns 29 3 (emptyLayout 29) of Inl e \<Rightarrow> False
    | Inr lay \<Rightarrow> list_all (fmtOK 29 (isFunction lay)) [0..14] \<and>
        560 \<le> length (dataCells (isFunction lay) (zigzagCells 29 28)) \<and>
        \<not> isFunction lay ! 28 ! 28)"
  by code_simp








lemma version3_function_patterns:
  "\<exists>layF. functionPatterns 29 3 (emptyLayout 29) = Inr layF \<and> layoutOK 29 layF"
proof -
  have "succeeds (layoutOK 29) (functionPatterns 29 3 (emptyLayout 29))"
    by (rule functionPatterns_succeeds [OF emptyLayout_OK]) simp_all
  then show ?thesis by (rule succeedsD)
qed

lemma version3_layout_facts:
  assumes fp: "functionPatterns 29 3 (emptyLayout 29) = Inr layF"
  shows "list_all (fmtOK 29 (isFunction layF)) [0..14]"
    "560 \<le> length (dataCells (isFunction layF) (zigzagCells 29 28))"
    "\<not> isFunction layF ! 28 ! 28"
proof -
  have "list_all (fmtOK 29 (isFunction layF)) [0..14] \<and>
        560 \<le> length (dataCells (isFunction layF) (zigzagCells 29 28)) \<and>
        \<not> isFunction layF ! 28 ! 28"
    using version3_layout by (simp only: fp sum.case simp_thms)
  then show "list_all (fmtOK 29 (isFunction layF)) [0..14]"
    "560 \<le> length (dataCells (isFunction layF) (zigzagCells 29 28))"
    "\<not> isFunction layF ! 28 ! 28"
    by blast+
qed




text \<open>
  The decoder reads the module grid: on a symbol of size 29 whose grid is missing it
  fails at the first cell of the traversal, the bottom-right corner.
\<close>

lemma zigzagCells_first:
  assumes "0 < sz - 1" "sz - 1 \<noteq> 6" "go_rem (go_quot sz 2) 2 = 0"
  shows "\<exists>cs. zigzagCells sz (sz - 1) = (sz - 1, sz - 1) # cs"
proof -
  have u: "[0..sz - 1] = 0 # [1..sz - 1]" using assms(1) by (simp add: upto.simps)
  show ?thesis
    using assms by (subst zigzagCells.simps) (simp add: u)
qed

lemma decodeSymbol_needs_grid:
  assumes "Size qr = 29" "Modules qr = []"
  shows "decodeSymbol qr = None"
proof -
  obtain layF where fp: "functionPatterns 29 3 (emptyLayout 29) = Inr layF" "layoutOK 29 layF"
    using version3_function_patterns by blast
  have nf: "\<not> isFunction layF ! 28 ! 28"
    by (rule version3_layout_facts(3) [OF fp(1)])
  have gF: "gridOK 29 (isFunction layF)" using fp(2) by (simp add: layoutOK_def)
  have g: "getCell (isFunction layF) 28 28 = Inr False"
    using getCell_ok [OF gF, of 28 28] nf by simp
  obtain cs where cs: "zigzagCells 29 (29 - 1) = (29 - 1, 29 - 1) # cs"
    using zigzagCells_first [of 29] by (auto simp: go_rem_def go_quot_def)
  have e: "getCell [] 28 28 = Inl IndexOutOfRange" by (simp add: getCell_def)
  have "readSymbolBits (isFunction layF) [] 29 = Inl IndexOutOfRange"
    using cs by (simp add: readSymbolBits_def readCell_def g e bindE_def)
  then show ?thesis
    by (simp add: decodeSymbol_def assms fp(1) Let_def)
qed



section \<open>Claim about the rasterizer\<close>

lemma wrap64_id: "- (2 ^ 63) \<le> x \<Longrightarrow> x < 2 ^ 63 \<Longrightarrow> wrap64 x = x"
  by (simp add: wrap64_def)

lemma wrap64_small: "0 \<le> x \<Longrightarrow> x \<le> 2 ^ 48 \<Longrightarrow> wrap64 x = x"
  by (rule wrap64_id) simp_all

lemma side_bound:
  assumes "0 \<le> d" "d * d \<le> maxAlloc"
  shows "d \<le> 2 ^ 24"
proof (rule ccontr)
  assume "\<not> d \<le> 2 ^ 24"
  then have "2 ^ 24 + 1 \<le> d" by simp
  then have "(2 ^ 24 + 1) * (2 ^ 24 + 1) \<le> d * d" by (intro mult_mono) simp_all
  then show False using assms(2) by (simp add: maxAlloc_def)
qed

lemma flat_index_less:
  assumes "0 \<le> x" "x < d" "0 \<le> y" "y < (d::int)"
  shows "y * d + x < d * d" and "0 \<le> y * d + x"
proof -
  have "y * d \<le> (d - 1) * d" using assms by (intro mult_right_mono) simp_all
  then show "y * d + x < d * d" using assms by (simp add: algebra_simps)
  show "0 \<le> y * d + x" using assms by simp
qed

lemma flat_index_inj:
  assumes "0 \<le> x" "x < d" "0 \<le> x'" "x' < (d::int)" "y * d + x = y' * d + x'"
  shows "x = x' \<and> y = y'"
proof -
  have 1: "(y * d + x) div d = y" using assms(1,2) by simp
  have 2: "(y' * d + x') div d = y'" using assms(3,4) by simp
  have "y = y'" using 1 2 assms(5) by metis
  then show ?thesis using assms(5) by simp
qed

lemma PixOffset_ok:
  assumes "imageOK d img" "0 \<le> x" "x < d" "0 \<le> y" "y < d"
  shows "PixOffset img x y = y * d + x" "0 \<le> y * d + x" "y * d + x < int (length (Pix img))"
proof -
  have d: "0 \<le> d" "d * d \<le> 2 ^ 48" "length (Pix img) = nat (d * d)" "Stride img = d"
    "RectMin img = (0, 0)"
    using assms(1) by (simp_all add: imageOK_def maxAlloc_def)
  have b: "0 \<le> y * d + x" "y * d + x < d * d"
    using flat_index_less [OF assms(2-5)] by simp_all
  have d24: "d \<le> 2 ^ 24" using side_bound assms(1) by (simp add: imageOK_def)
  have yd: "0 \<le> y * d" "y * d \<le> 2 ^ 48" using assms(4) d(1) b(2) d(2) assms(2) by simp_all
  have w: "wrap64 x = x" "wrap64 y = y" "wrap64 (y * d) = y * d" "wrap64 (y * d + x) = y * d + x"
    using assms(2-5) d24 yd b d(2) by (intro wrap64_small; simp)+
  show "PixOffset img x y = y * d + x"
    by (simp add: PixOffset_def d(4,5) w)
  show "0 \<le> y * d + x" by (rule b(1))
  show "y * d + x < int (length (Pix img))" using b d(1,3) by simp
qed


lemma paints_SetColorIndex: "paints d (\<lambda>img. SetColorIndex img x y 1) {(x, y)}"
  unfolding paints_def
proof (intro allI impI)
  fix img assume ok: "imageOK d img"
  have rect: "inRect img x y \<longleftrightarrow> 0 \<le> x \<and> x < d \<and> 0 \<le> y \<and> y < d"
    using ok by (auto simp: inRect_def imageOK_def)
  show "\<exists>img'. SetColorIndex img x y 1 = Inr img' \<and> imageOK d img' \<and>
          (\<forall>x' y'. 0 \<le> x' \<and> x' < d \<and> 0 \<le> y' \<and> y' < d \<longrightarrow>
             pixelAt img' x' y' = (if (x', y') \<in> {(x, y)} then 1 else pixelAt img x' y'))"
  proof (cases "0 \<le> x \<and> x < d \<and> 0 \<le> y \<and> y < d")
    case False
    then have "SetColorIndex img x y 1 = Inr img" by (simp add: SetColorIndex_def rect)
    moreover have "\<forall>x' y'. 0 \<le> x' \<and> x' < d \<and> 0 \<le> y' \<and> y' < d \<longrightarrow>
             pixelAt img x' y' = (if (x', y') \<in> {(x, y)} then 1 else pixelAt img x' y')"
      using False by auto
    ultimately show ?thesis using ok by blast
  next
    case True
    then have r: "0 \<le> x" "x < d" "0 \<le> y" "y < d" by simp_all
    note off = PixOffset_ok [OF ok r]
    define img' where "img' = img\<lparr>Pix := (Pix img)[nat (y * d + x) := 1]\<rparr>"
    have s: "SetColorIndex img x y 1 = Inr img'"
      using True off by (simp add: SetColorIndex_def rect img'_def)
    have ok': "imageOK d img'" using ok by (simp add: imageOK_def img'_def)
    have st: "Stride img = d" using ok by (simp add: imageOK_def)
    have "\<forall>x' y'. 0 \<le> x' \<and> x' < d \<and> 0 \<le> y' \<and> y' < d \<longrightarrow>
             pixelAt img' x' y' = (if (x', y') \<in> {(x, y)} then 1 else pixelAt img x' y')"
    proof (intro allI impI)
      fix x' y' assume a: "0 \<le> x' \<and> x' < d \<and> 0 \<le> y' \<and> y' < d"
      then have r': "0 \<le> x'" "x' < d" "0 \<le> y'" "y' < d" by simp_all
      note off' = PixOffset_ok [OF ok r']
      have lt: "nat (y' * d + x') < length (Pix img)" using off'(2,3) by simp
      have "nat (y * d + x) = nat (y' * d + x') \<longleftrightarrow> y * d + x = y' * d + x'"
        using off(2) off'(2) by (intro eq_nat_nat_iff)
      then have eq: "nat (y * d + x) = nat (y' * d + x') \<longleftrightarrow> x = x' \<and> y = y'"
        using flat_index_inj [OF r(1,2) r'(1,2), of y y'] by blast
      show "pixelAt img' x' y' = (if (x', y') \<in> {(x, y)} then 1 else pixelAt img x' y')"
        using lt eq by (auto simp: pixelAt_def img'_def st nth_list_update)
    qed
    then show ?thesis using s ok' by blast
  qed
qed

lemma paints_id: "paints d Inr {}"
  by (simp add: paints_def)

lemma paints_comp:
  assumes "paints d f S" "paints d g T"
  shows "paints d (\<lambda>img. bindE (f img) g) (S \<union> T)"
  unfolding paints_def
proof (intro allI impI)
  fix img assume ok: "imageOK d img"
  obtain img1 where 1: "f img = Inr img1" "imageOK d img1"
    "\<forall>x y. 0 \<le> x \<and> x < d \<and> 0 \<le> y \<and> y < d \<longrightarrow>
       pixelAt img1 x y = (if (x, y) \<in> S then 1 else pixelAt img x y)"
    using assms(1) ok unfolding paints_def by blast
  obtain img2 where 2: "g img1 = Inr img2" "imageOK d img2"
    "\<forall>x y. 0 \<le> x \<and> x < d \<and> 0 \<le> y \<and> y < d \<longrightarrow>
       pixelAt img2 x y = (if (x, y) \<in> T then 1 else pixelAt img1 x y)"
    using assms(2) 1(2) unfolding paints_def by blast
  have "bindE (f img) g = Inr img2" by (simp add: 1(1) 2(1) bindE_def)
  moreover have "\<forall>x y. 0 \<le> x \<and> x < d \<and> 0 \<le> y \<and> y < d \<longrightarrow>
       pixelAt img2 x y = (if (x, y) \<in> S \<union> T then 1 else pixelAt img x y)"
    using 1(3) 2(3) by auto
  ultimately show "\<exists>img'. bindE (f img) g = Inr img' \<and> imageOK d img' \<and>
       (\<forall>x y. 0 \<le> x \<and> x < d \<and> 0 \<le> y \<and> y < d \<longrightarrow>
          pixelAt img' x y = (if (x, y) \<in> S \<union> T then 1 else pixelAt img x y))"
    using 2(2) by blast
qed

lemma paints_foldE:
  assumes "\<And>a. a \<in> set as \<Longrightarrow> paints d (h a) (S a)"
  shows "paints d (foldE h as) (\<Union>a \<in> set as. S a)"
  using assms
proof (induction as)
  case Nil
  have "foldE h [] = Inr" by (rule ext) simp
  then show ?case by (simp add: paints_id)
next
  case (Cons a as)
  have "paints d (\<lambda>img. bindE (h a img) (foldE h as)) (S a \<union> (\<Union>a \<in> set as. S a))"
    using Cons by (intro paints_comp) simp_all
  moreover have "foldE h (a # as) = (\<lambda>img. bindE (h a img) (foldE h as))"
    by (rule ext) simp
  ultimately show ?case by simp
qed

lemma paints_if:
  "paints d f S \<Longrightarrow> paints d (\<lambda>img. if b then f img else Inr img) (if b then S else {})"
  using paints_id [of d] by (cases b) (simp_all add: paints_def)

lemma paints_getCell:
  assumes "getCell g r c = Inr m" "paints d f S"
  shows "paints d (\<lambda>img. bindE (getCell g r c) (\<lambda>m. if m then f img else Inr img))
           (if m then S else {})"
  using paints_if [OF assms(2), of m] by (simp add: assms(1) bindE_def)

lemma paints_drawModule:
  "paints d (drawModule scale sx sy)
     (\<Union>y \<in> set [0..scale - 1]. \<Union>x \<in> set [0..scale - 1]. {(wrap64 (sx + x), wrap64 (sy + y))})"
  unfolding drawModule_def
  by (intro paints_foldE paints_SetColorIndex)


lemma clear_fold: "n \<le> length pix \<Longrightarrow>
  fold (\<lambda>i pix. pix[i := 0]) [0..<n] pix = replicate n (0::8 word) @ drop n pix"
proof (induction n)
  case 0
  then show ?case by simp
next
  case (Suc n)
  then have n: "n < length pix" by simp
  have "(replicate n 0 @ drop n pix)[n := 0] = replicate (Suc n) (0::8 word) @ drop (Suc n) pix"
    using n by (simp add: list_update_append replicate_append_same upd_conv_take_nth_drop
        Cons_nth_drop_Suc [symmetric])
  then show ?case using Suc by simp
qed

lemma NewPaletted_square:
  assumes "0 \<le> d" "d \<le> 2 ^ 24"
  shows "NewPaletted (Rect 0 0 d d) =
     Inr \<lparr>Pix = replicate (nat (d * d)) 0, Stride = d, RectMin = (0, 0), RectMax = (d, d)\<rparr>"
    and "d * d \<le> maxAlloc"
proof -
  have dd: "0 \<le> d * d" "d * d \<le> 2 ^ 24 * 2 ^ 24"
    using assms by (simp, intro mult_mono, simp_all)
  then have dd': "d * d \<le> 2 ^ 48" by simp
  show "d * d \<le> maxAlloc" using dd' by (simp add: maxAlloc_def)
  have w: "wrap64 d = d" "wrap64 (d * d) = d * d"
    using assms dd(1) dd' by (intro wrap64_small; simp)+
  have r: "Rect 0 0 d d = ((0, 0), (d, d))" using assms(1) by (simp add: Rect_def)
  have m: "mul3NonNeg 1 d d = d * d"
    using assms dd(1) dd' by (simp add: mul3NonNeg_def w)
  show "NewPaletted (Rect 0 0 d d) =
     Inr \<lparr>Pix = replicate (nat (d * d)) 0, Stride = d, RectMin = (0, 0), RectMax = (d, d)\<rparr>"
    using dd(1) dd' by (simp add: NewPaletted_def r w m Let_def maxAlloc_def)
qed

lemma clearPix_fresh:
  assumes "0 \<le> d" "d * d \<le> maxAlloc"
  shows "imageOK d (clearPix \<lparr>Pix = replicate (nat (d * d)) 0, Stride = d, RectMin = (0, 0), RectMax = (d, d)\<rparr>)"
    and "0 \<le> x \<Longrightarrow> x < d \<Longrightarrow> 0 \<le> y \<Longrightarrow> y < d \<Longrightarrow>
      pixelAt (clearPix \<lparr>Pix = replicate (nat (d * d)) 0, Stride = d, RectMin = (0, 0), RectMax = (d, d)\<rparr>) x y = 0"
proof -
  let ?img = "\<lparr>Pix = replicate (nat (d * d)) 0, Stride = d, RectMin = (0, 0), RectMax = (d, d)\<rparr>"
  have p: "Pix (clearPix ?img) = replicate (nat (d * d)) 0"
    by (simp add: clearPix_def clear_fold)
  have o: "Stride (clearPix ?img) = d" "RectMin (clearPix ?img) = (0, 0)" "RectMax (clearPix ?img) = (d, d)"
    by (simp_all add: clearPix_def)
  show "imageOK d (clearPix ?img)"
    using assms by (simp add: imageOK_def p o)
  assume r: "0 \<le> x" "x < d" "0 \<le> y" "y < d"
  have "nat (y * d + x) < nat (d * d)"
    using flat_index_less [OF r] by simp
  then show "pixelAt (clearPix ?img) x y = 0"
    by (simp add: pixelAt_def p o)
qed

lemma module_bounds:
  assumes "0 \<le> sz" "1 \<le> scale" "(sz + 8) * scale \<le> 2 ^ 24" "0 \<le> c" "c < sz" "0 \<le> x" "x < scale"
  shows "wrap64 (wrap64 (wrap64 (c + 4) * scale) + x) = (c + 4) * scale + x"
proof -
  have sc: "scale \<le> (sz + 8) * scale" using assms(1,2) by (simp add: mult_le_cancel_right1 [symmetric] mult.commute)
  have c4: "(c + 4) * scale \<le> (sz + 8) * scale" using assms(2,5) by (intro mult_right_mono) simp_all
  have c5: "(c + 4) * scale + scale \<le> (sz + 8) * scale"
  proof -
    have "(c + 5) * scale \<le> (sz + 8) * scale" using assms(2,5) by (intro mult_right_mono) simp_all
    then show ?thesis by (simp add: algebra_simps)
  qed
  have n: "0 \<le> (c + 4) * scale" using assms(2,4) by simp
  have w1: "wrap64 (c + 4) = c + 4"
  proof (rule wrap64_small)
    show "0 \<le> c + 4" using assms(4) by simp
    have "c + 4 \<le> (c + 4) * scale" using assms(2,4) by (simp add: mult_le_cancel_left1)
    then show "c + 4 \<le> 2 ^ 48" using c4 assms(3) by simp
  qed
  have w2: "wrap64 ((c + 4) * scale) = (c + 4) * scale"
    using n c4 assms(3) by (intro wrap64_small) simp_all
  have w3: "wrap64 ((c + 4) * scale + x) = (c + 4) * scale + x"
    using n c5 assms(3,6,7) by (intro wrap64_small) simp_all
  show ?thesis by (simp only: w1 w2 w3)
qed

lemma module_square_eq:
  assumes "0 \<le> sz" "1 \<le> scale" "(sz + 8) * scale \<le> 2 ^ 24" "0 \<le> c" "c < sz" "0 \<le> r" "r < sz"
  shows "(\<Union>y \<in> set [0..scale - 1]. \<Union>x \<in> set [0..scale - 1].
            {(wrap64 (wrap64 (wrap64 (c + 4) * scale) + x), wrap64 (wrap64 (wrap64 (r + 4) * scale) + y))})
         = moduleSquare scale r c"
proof -
  have "(\<Union>y \<in> set [0..scale - 1]. \<Union>x \<in> set [0..scale - 1].
            {(wrap64 (wrap64 (wrap64 (c + 4) * scale) + x), wrap64 (wrap64 (wrap64 (r + 4) * scale) + y))})
      = (\<Union>y \<in> set [0..scale - 1]. \<Union>x \<in> set [0..scale - 1].
            {((c + 4) * scale + x, (r + 4) * scale + y)})"
    using module_bounds [OF assms(1-3) assms(4,5)] module_bounds [OF assms(1-3) assms(6,7)]
    by simp
  also have "\<dots> = moduleSquare scale r c"
  proof (intro set_eqI iffI)
    fix p assume "p \<in> (\<Union>y \<in> set [0..scale - 1]. \<Union>x \<in> set [0..scale - 1].
          {((c + 4) * scale + x, (r + 4) * scale + y)})"
    then show "p \<in> moduleSquare scale r c"
      by (auto simp: moduleSquare_def)
  next
    fix p assume p: "p \<in> moduleSquare scale r c"
    obtain x y where xy: "p = (x, y)" by (cases p)
    have "x = (c + 4) * scale + (x - (c + 4) * scale)" "y = (r + 4) * scale + (y - (r + 4) * scale)"
      by simp_all
    moreover have "x - (c + 4) * scale \<in> set [0..scale - 1]" "y - (r + 4) * scale \<in> set [0..scale - 1]"
      using p by (auto simp: moduleSquare_def xy)
    ultimately show "p \<in> (\<Union>y \<in> set [0..scale - 1]. \<Union>x \<in> set [0..scale - 1].
          {((c + 4) * scale + x, (r + 4) * scale + y)})"
      unfolding xy by blast
  qed
  finally show ?thesis .
qed


lemma paints_cong: "paints d f S \<Longrightarrow> S = T \<Longrightarrow> paints d f T"
  by simp

lemma paints_symbol:
  assumes g: "gridOK (Size qr) (Modules qr)" and s: "0 \<le> Size qr" "1 \<le> scale"
    "(Size qr + 8) * scale \<le> 2 ^ 24"
  shows "paints d (foldE (\<lambda>r. foldE (\<lambda>c img.
             bindE (getCell (Modules qr) r c) (\<lambda>m.
               if m then drawModule scale (wrap64 (wrap64 (c + 4) * scale))
                            (wrap64 (wrap64 (r + 4) * scale)) img
               else Inr img))
           [0..Size qr - 1]) [0..Size qr - 1]) (painted qr scale)"
  unfolding painted_def
proof (intro paints_foldE)
  fix r c assume r: "r \<in> set [0..Size qr - 1]" and c: "c \<in> set [0..Size qr - 1]"
  then have rc: "0 \<le> r" "r < Size qr" "0 \<le> c" "c < Size qr" by simp_all
  have gc: "getCell (Modules qr) r c = Inr (Modules qr ! nat r ! nat c)"
    using getCell_ok [OF g rc] .
  have "paints d (drawModule scale (wrap64 (wrap64 (c + 4) * scale)) (wrap64 (wrap64 (r + 4) * scale)))
      (moduleSquare scale r c)"
    using paints_drawModule [of d scale "wrap64 (wrap64 (c + 4) * scale)" "wrap64 (wrap64 (r + 4) * scale)"]
    by (simp only: module_square_eq [OF s rc(3,4,1,2)])
  then show "paints d (\<lambda>img. bindE (getCell (Modules qr) r c) (\<lambda>m.
               if m then drawModule scale (wrap64 (wrap64 (c + 4) * scale))
                            (wrap64 (wrap64 (r + 4) * scale)) img
               else Inr img))
       (if Modules qr ! nat r ! nat c then moduleSquare scale r c else {})"
    by (rule paints_getCell [OF gc])
qed

lemma mem_if_empty: "p \<in> (if b then S else {}) \<longleftrightarrow> b \<and> p \<in> S"
  by simp

lemma painted_iff:
  "(x, y) \<in> painted qr scale \<longleftrightarrow>
     (\<exists>r c. 0 \<le> r \<and> r < Size qr \<and> 0 \<le> c \<and> c < Size qr \<and> Modules qr ! nat r ! nat c \<and>
        (c + 4) * scale \<le> x \<and> x < (c + 4) * scale + scale \<and>
        (r + 4) * scale \<le> y \<and> y < (r + 4) * scale + scale)"
proof -
  have le: "\<And>r. r \<le> Size qr - 1 \<longleftrightarrow> r < Size qr" by auto
  show ?thesis
    by (simp only: painted_def UN_iff mem_if_empty set_upto atLeastAtMost_iff Bex_def
          moduleSquare_def mem_Collect_eq prod.case le) blast
qed

lemma WritePNG_dim:
  assumes "0 \<le> sz" "1 \<le> scale" "(sz + 8) * scale \<le> 2 ^ 24"
  shows "wrap64 (wrap64 (sz + wrap64 (2 * 4)) * scale) = (sz + 8) * scale"
proof -
  have 8: "wrap64 (2 * 4) = 8" by (simp add: wrap64_def)
  have le: "sz + 8 \<le> (sz + 8) * scale" using assms(1,2) by (simp add: mult_le_cancel_left1)
  have 1: "wrap64 (sz + 8) = sz + 8"
  proof (rule wrap64_small)
    show "0 \<le> sz + 8" using assms(1) by simp
    show "sz + 8 \<le> 2 ^ 48" using le assms(3) by simp
  qed
  have 2: "wrap64 ((sz + 8) * scale) = (sz + 8) * scale"
    using assms by (intro wrap64_small) simp_all
  show ?thesis by (simp only: 8 1 2)
qed

lemma ColorIndexAt_pixelAt:
  assumes "imageOK d img" "0 \<le> x" "x < d" "0 \<le> y" "y < d"
  shows "ColorIndexAt img x y = Inr (pixelAt img x y)"
proof -
  note off = PixOffset_ok [OF assms]
  have "inRect img x y" using assms by (simp add: inRect_def imageOK_def)
  moreover have "Stride img = d" using assms(1) by (simp add: imageOK_def)
  ultimately show ?thesis
    using off by (simp add: ColorIndexAt_def pixelAt_def)
qed

text \<open>
  Claim C9, as the code has it. For every symbol (a square grid of \<open>Size\<close> rows and
  columns, \<open>Size\<close> not negative) and every scale from 1 on for which the side
  \<open>(Size + 8) * scale\<close> is at most \<open>2 ^ 24\<close> pixels, so that the image has at most
  \<open>maxAlloc\<close> pixels, \<^verbatim>\<open>WritePNG\<close> renders a square image of that side: a pixel has the
  foreground index 1 exactly when it lies in the \<open>scale\<close> by \<open>scale\<close> square of a dark
  module, the squares being laid out behind a quiet zone of 4 modules; every other
  pixel has the background index 0.
\<close>

theorem WritePNG_geometry:
  assumes "0 \<le> Size qr" and "gridOK (Size qr) (Modules qr)" and "1 \<le> scale"
    and "(Size qr + 8) * scale \<le> 2 ^ 24"
  shows "\<exists>img. WritePNG qr scale = Inr img \<and>
     RectMin img = (0, 0) \<and> RectMax img = ((Size qr + 8) * scale, (Size qr + 8) * scale) \<and>
     Stride img = (Size qr + 8) * scale \<and>
     length (Pix img) = nat ((Size qr + 8) * scale * ((Size qr + 8) * scale)) \<and>
     (\<forall>x y. 0 \<le> x \<and> x < (Size qr + 8) * scale \<and> 0 \<le> y \<and> y < (Size qr + 8) * scale \<longrightarrow>
        ColorIndexAt img x y =
          Inr (if \<exists>r c. 0 \<le> r \<and> r < Size qr \<and> 0 \<le> c \<and> c < Size qr \<and>
                Modules qr ! nat r ! nat c \<and>
                (c + 4) * scale \<le> x \<and> x < (c + 4) * scale + scale \<and>
                (r + 4) * scale \<le> y \<and> y < (r + 4) * scale + scale
           then 1 else 0))"
proof -
  define d where "d = (Size qr + 8) * scale"
  define img0 where "img0 = clearPix \<lparr>Pix = replicate (nat (d * d)) 0, Stride = d,
      RectMin = (0, 0), RectMax = (d, d)\<rparr>"
  let ?draw = "foldE (\<lambda>r. foldE (\<lambda>c img.
             bindE (getCell (Modules qr) r c) (\<lambda>m.
               if m then drawModule scale (wrap64 (wrap64 (c + 4) * scale))
                            (wrap64 (wrap64 (r + 4) * scale)) img
               else Inr img))
           [0..Size qr - 1]) [0..Size qr - 1]"
  have d: "0 \<le> d" "d \<le> 2 ^ 24" using assms(1,3,4) by (simp_all add: d_def)
  have np: "NewPaletted (Rect 0 0 d d) =
     Inr \<lparr>Pix = replicate (nat (d * d)) 0, Stride = d, RectMin = (0, 0), RectMax = (d, d)\<rparr>"
    and dd: "d * d \<le> maxAlloc"
    using NewPaletted_square [OF d] by blast+
  have w: "WritePNG qr scale = ?draw img0"
    using assms(3) WritePNG_dim [OF assms(1,3,4)]
    by (simp add: WritePNG_def Let_def d_def [symmetric] np bindE_def img0_def)
  have ok0: "imageOK d img0" unfolding img0_def by (rule clearPix_fresh(1) [OF d(1) dd])
  have z: "\<And>x y. 0 \<le> x \<and> x < d \<and> 0 \<le> y \<and> y < d \<Longrightarrow> pixelAt img0 x y = 0"
    unfolding img0_def using clearPix_fresh(2) [OF d(1) dd] by blast
  obtain img where img: "?draw img0 = Inr img" "imageOK d img"
    "\<forall>x y. 0 \<le> x \<and> x < d \<and> 0 \<le> y \<and> y < d \<longrightarrow>
       pixelAt img x y = (if (x, y) \<in> painted qr scale then 1 else pixelAt img0 x y)"
    using paints_symbol [OF assms(2,1,3,4), of d] ok0 unfolding paints_def by blast
  have "\<forall>x y. 0 \<le> x \<and> x < d \<and> 0 \<le> y \<and> y < d \<longrightarrow>
        ColorIndexAt img x y =
          Inr (if \<exists>r c. 0 \<le> r \<and> r < Size qr \<and> 0 \<le> c \<and> c < Size qr \<and>
                Modules qr ! nat r ! nat c \<and>
                (c + 4) * scale \<le> x \<and> x < (c + 4) * scale + scale \<and>
                (r + 4) * scale \<le> y \<and> y < (r + 4) * scale + scale
           then 1 else 0)"
    unfolding painted_iff [symmetric]
  proof (intro allI impI)
    fix x y assume r: "0 \<le> x \<and> x < d \<and> 0 \<le> y \<and> y < d"
    have "ColorIndexAt img x y = Inr (pixelAt img x y)"
      using ColorIndexAt_pixelAt [OF img(2)] r by blast
    then show "ColorIndexAt img x y = Inr (if (x, y) \<in> painted qr scale then 1 else 0)"
      using img(3) r z [OF r] by simp
  qed
  then show ?thesis
    using w img(1,2) unfolding d_def [symmetric]
    by (intro exI [of _ img]) (simp add: imageOK_def)
qed

theorem WritePNG_geometry_witness:
  "\<exists>qr img. NewQRCode ''Hello World'' LevelL = Inr qr \<and> Size qr = 21 \<and>
     WritePNG qr 10 = Inr img \<and> RectMin img = (0, 0) \<and> RectMax img = (290, 290) \<and>
     length (Pix img) = 84100 \<and>
     ColorIndexAt img 120 170 = Inr 1 \<and> ColorIndexAt img 0 0 = Inr 0"
proof -
  have "findVersion [1, 2, 3, 4] (length ''Hello World'') LevelL =
      Some (1, versionLookup 1 LevelL)"
    by (simp add: versionLookup_simps dataCapacity_def)
  then obtain qr where qr: "NewQRCode ''Hello World'' LevelL = Inr qr" "symbolOK 1 LevelL qr"
    using NewQRCode_exists by blast
  have sz: "Size qr = 21" and g: "gridOK (Size qr) (Modules qr)"
    and dark: "Modules qr ! nat (Size qr - 8) ! 8"
    using qr(2) formatPoly_bit8(1) by (auto simp: symbolOK_def)
  have h: "0 \<le> Size qr" "(1::int) \<le> 10" "(Size qr + 8) * 10 \<le> 2 ^ 24" using sz by simp_all
  obtain img where img: "WritePNG qr 10 = Inr img"
      "RectMin img = (0, 0)" "RectMax img = ((Size qr + 8) * 10, (Size qr + 8) * 10)"
      "length (Pix img) = nat ((Size qr + 8) * 10 * ((Size qr + 8) * 10))"
    and px: "\<And>x y. 0 \<le> x \<and> x < (Size qr + 8) * 10 \<and> 0 \<le> y \<and> y < (Size qr + 8) * 10 \<Longrightarrow>
        ColorIndexAt img x y =
          Inr (if \<exists>r c. 0 \<le> r \<and> r < Size qr \<and> 0 \<le> c \<and> c < Size qr \<and>
                Modules qr ! nat r ! nat c \<and>
                (c + 4) * 10 \<le> x \<and> x < (c + 4) * 10 + 10 \<and>
                (r + 4) * 10 \<le> y \<and> y < (r + 4) * 10 + 10
           then 1 else 0)"
    using WritePNG_geometry [OF h(1) g h(2,3)] by blast
  have b: "RectMax img = (290, 290)" "length (Pix img) = 84100" using img(3,4) sz by simp_all
  have "\<exists>r c. 0 \<le> r \<and> r < Size qr \<and> 0 \<le> c \<and> c < Size qr \<and>
                Modules qr ! nat r ! nat c \<and>
                (c + 4) * 10 \<le> 120 \<and> 120 < (c + 4) * 10 + 10 \<and>
                (r + 4) * 10 \<le> 170 \<and> 170 < (r + 4) * 10 + 10"
    using dark sz by (intro exI [of _ 13] exI [of _ 8]) simp
  then have 1: "ColorIndexAt img 120 170 = Inr 1"
    using px [of 120 170] sz by simp
  have "\<not> (\<exists>r c. 0 \<le> r \<and> r < Size qr \<and> 0 \<le> c \<and> c < Size qr \<and>
                Modules qr ! nat r ! nat c \<and>
                (c + 4) * 10 \<le> 0 \<and> 0 < (c + 4) * 10 + 10 \<and>
                (r + 4) * 10 \<le> 0 \<and> 0 < (r + 4) * 10 + 10)"
    by auto
  then have 2: "ColorIndexAt img 0 0 = Inr 0"
    using px [of 0 0] sz by simp
  show ?thesis
    using qr(1) sz img(1,2) b 1 2 by blast
qed

text \<open>
  The claim as the spec states it, for every scale from 1 on, fails. At scale \<open>2 ^ 62\<close>
  and size 21 the product \<open>29 * 2 ^ 62\<close> wraps to \<open>2 ^ 62\<close>, and the image constructor
  panics on a rectangle of that side, whatever the modules are.
\<close>

lemma WritePNG_huge_scale:
  assumes "Size qr = 21"
  shows "WritePNG qr (2 ^ 62) = Inl HugeOrNegativeDimensions"
proof -
  have "wrap64 (wrap64 (21 + wrap64 (2 * 4)) * 2 ^ 62) = 2 ^ 62"
    by (simp add: wrap64_def)
  moreover have "NewPaletted (Rect 0 0 (2 ^ 62) (2 ^ 62)) = Inl HugeOrNegativeDimensions"
    by (simp add: NewPaletted_def Rect_def mul3NonNeg_def wrap64_def Let_def)
  ultimately show ?thesis
    by (simp add: WritePNG_def Let_def assms bindE_def)
qed

theorem WritePNG_huge_scale_counterexample:
  "WritePNG \<lparr>Version = 1, Level = LevelL, Size = 21, Modules = replicate 21 (replicate 21 False)\<rparr>
     (2 ^ 62) = Inl HugeOrNegativeDimensions"
  by (rule WritePNG_huge_scale) simp

text \<open>
  The bound of the claim is the largest one: a side above \<open>2 ^ 24\<close> that still fits an
  \<^verbatim>\<open>int\<close> makes \<^verbatim>\<open>WritePNG\<close> panic. A scale below 1 is drawn as scale 1.
\<close>

lemma WritePNG_scale_below_1: "scale < 1 \<Longrightarrow> WritePNG qr scale = WritePNG qr 1"
  by (simp add: WritePNG_def)

lemma WritePNG_too_large:
  assumes "0 \<le> Size qr" "1 \<le> scale" "2 ^ 24 < (Size qr + 8) * scale" "(Size qr + 8) * scale < 2 ^ 63"
  shows "WritePNG qr scale = Inl HugeOrNegativeDimensions \<or>
         WritePNG qr scale = Inl MakeSliceLenOutOfRange"
proof -
  define d where "d = (Size qr + 8) * scale"
  have d: "2 ^ 24 < d" "d < 2 ^ 63" using assms(3,4) by (simp_all add: d_def)
  have 8: "wrap64 (2 * 4) = 8" by (simp add: wrap64_def)
  have le: "Size qr + 8 \<le> d" unfolding d_def using assms(1,2) by (simp add: mult_le_cancel_left1)
  have 1: "wrap64 (Size qr + 8) = Size qr + 8"
    using assms(1) le d(2) by (intro wrap64_id) simp_all
  have 2: "wrap64 d = d" using d by (intro wrap64_id) simp_all
  have dim: "wrap64 (wrap64 (Size qr + wrap64 (2 * 4)) * scale) = d"
    by (simp only: 8 1 2 d_def [symmetric])
  have r: "Rect 0 0 d d = ((0, 0), (d, d))" using d(1) by (simp add: Rect_def)
  have "(2 ^ 24 + 1) * (2 ^ 24 + 1) \<le> d * d" using d(1) by (intro mult_mono) simp_all
  then have big: "maxAlloc < d * d" by (simp add: maxAlloc_def)
  have m: "mul3NonNeg 1 d d < 0 \<or> mul3NonNeg 1 d d = d * d"
  proof (cases "d * d < 2 ^ 63")
    case True
    have nn: "0 \<le> d * d" by simp
    have "wrap64 (d * d) = d * d"
    proof (rule wrap64_id)
      show "- (2 ^ 63) \<le> d * d" by (rule order_trans [OF _ nn]) simp
      show "d * d < 2 ^ 63" by (rule True)
    qed
    then show ?thesis using d(1) True by (simp add: mul3NonNeg_def)
  next
    case False
    show ?thesis
    proof (cases "2 ^ 64 \<le> d * d")
      case True
      then show ?thesis using d(1) by (simp add: mul3NonNeg_def)
    next
      case f: False
      have q: "0 \<le> d * d - 2 ^ 63" "d * d - 2 ^ 63 < 2 ^ 64" using False f by simp_all
      have "d * d + 2 ^ 63 = (d * d - 2 ^ 63) + 2 ^ 64" by simp
      then have "(d * d + 2 ^ 63) mod 2 ^ 64 = (d * d - 2 ^ 63) mod 2 ^ 64"
        by (simp only: mod_add_self2)
      also have "\<dots> = d * d - 2 ^ 63" using q by (rule mod_pos_pos_trivial)
      finally have "(d * d + 2 ^ 63) mod 2 ^ 64 = d * d - 2 ^ 63" .
      then have "wrap64 (d * d) < 0" using f by (simp add: wrap64_def)
      then show ?thesis using d(1) f by (simp add: mul3NonNeg_def)
    qed
  qed
  have "NewPaletted (Rect 0 0 d d) = Inl HugeOrNegativeDimensions \<or>
        NewPaletted (Rect 0 0 d d) = Inl MakeSliceLenOutOfRange"
    using m big by (auto simp: NewPaletted_def r 2 Let_def)
  then show ?thesis
    using assms(2) dim by (auto simp: WritePNG_def Let_def bindE_def)
qed

end
